theory Spec2Isabelle
  imports Complex_Main
begin

section \<open>Data model of the serialized tree (SerialTree.cpp)\<close>

text \<open>
  Addresses are byte addresses, modelled as integers; the null pointer is 0.
  A \<^verbatim>\<open>double*\<close> moved by \<open>n\<close> elements moves by \<open>8 * n\<close> bytes.
\<close>

type_synonym addr = int

datatype error =
    Fatal_maxNodes
  | Fatal_maxNodesCoeff
  | Fatal_maxGenNodesCoeff
  | Fatal_only_2D
  | Fatal_rootBox
  | OutOfBounds
  | Fatal_only_D3
  | DanglingPointer
  | StackOverflow

text \<open>Sequencing of steps that may fail: the first error ends the computation.\<close>

definition bind_err :: "error + 'a \<Rightarrow> ('a \<Rightarrow> error + 'b) \<Rightarrow> error + 'b" where
  "bind_err m f = (case m of Inl e \<Rightarrow> Inl e | Inr v \<Rightarrow> f v)"

text \<open>
  The fields of \<^verbatim>\<open>MWNode<D>\<close> that SerialTree.cpp reads or writes. \<open>children\<close> holds
  the \<^verbatim>\<open>getNChildren()\<close> child addresses, \<open>coefvec\<close> the address of the node's
  coefficient block, \<open>squareNorm\<close> the value \<^verbatim>\<open>getSquareNorm()\<close> returns.
\<close>

record 'n MWNode =
  NodeRank :: int
  NodeCoeffIx :: int
  parent :: addr
  children :: "addr list"
  coefvec :: addr
  tree :: addr
  hasWCoefs :: bool
  isGenNode :: bool
  squareNorm :: 'n

text \<open>
  The memory the tree lives in: node records by address, and coefficient blocks
  (each a sequence of doubles, here of any type \<open>'a\<close>) by the address of their first element.
\<close>

record ('a, 'n) heap =
  nodes :: "addr \<rightharpoonup> 'n MWNode"
  coefmem :: "addr \<rightharpoonup> 'a list"

definition getNode :: "('a, 'n) heap \<Rightarrow> addr \<Rightarrow> error + 'n MWNode" where
  "getNode h a = (case nodes h a of None \<Rightarrow> Inl DanglingPointer | Some n \<Rightarrow> Inr n)"

definition getCoefs :: "('a, 'n) heap \<Rightarrow> 'n MWNode \<Rightarrow> error + 'a list" where
  "getCoefs h n = (case coefmem h (coefvec n) of None \<Rightarrow> Inl DanglingPointer | Some cs \<Rightarrow> Inr cs)"

section \<open>Tree merge engine: SerialTreeAdd\<close>

text \<open>
  \<^verbatim>\<open>for (int i=lo; i<hi; i++) cA[i]+=c*cB[i];\<close> An index outside either block is an
  out-of-bounds access.
\<close>

definition add_range :: "'a::{plus,times} \<Rightarrow> 'a list \<Rightarrow> nat \<Rightarrow> nat \<Rightarrow> 'a list \<Rightarrow> error + 'a list" where
  "add_range c cB lo hi cA =
     (if lo < hi \<and> (length cA < hi \<or> length cB < hi) then Inl OutOfBounds
      else Inr (fold (\<lambda>i xs. xs[i := xs ! i + c * cB ! i]) [lo..<hi] cA))"

text \<open>\<^verbatim>\<open>for (int i=lo; i<hi; i++) cA[i]=c*cB[i];\<close>\<close>

definition copy_range :: "'a::{plus,times} \<Rightarrow> 'a list \<Rightarrow> nat \<Rightarrow> nat \<Rightarrow> 'a list \<Rightarrow> error + 'a list" where
  "copy_range c cB lo hi cA =
     (if lo < hi \<and> (length cA < hi \<or> length cB < hi) then Inl OutOfBounds
      else Inr (fold (\<lambda>i xs. xs[i := c * cB ! i]) [lo..<hi] cA))"

text \<open>
  The four-way branch on \<^verbatim>\<open>fposA->hasWCoefs()\<close> and \<^verbatim>\<open>fposB->hasWCoefs()\<close>
  (SerialTreeAdd, the block under \<^verbatim>\<open>if(1)\<close>). \<open>NG\<close> is \<^verbatim>\<open>N_GenCoeff\<close>, \<open>NC\<close> is
  \<^verbatim>\<open>N_Coeff\<close>. The last row only prints a message.
\<close>

definition combine ::
  "'a::{plus,times} \<Rightarrow> nat \<Rightarrow> nat \<Rightarrow> bool \<Rightarrow> bool \<Rightarrow> 'a list \<Rightarrow> 'a list \<Rightarrow> error + 'a list" where
  "combine c NG NC wA wB cA cB =
     (if wA then
        (if wB then add_range c cB 0 NC cA
         else add_range c cB 0 NG cA)
      else
        bind_err (add_range c cB 0 NG cA) (\<lambda>cA1.
          if wB then copy_range c cB NG NC cA1
          else Inr cA1))"

text \<open>
  The loop state of SerialTreeAdd: the twin stacks \<^verbatim>\<open>stackA\<close>/\<^verbatim>\<open>stackB\<close>, which share
  the one index \<^verbatim>\<open>slenA\<close>, as a list of pairs with the top first; the memory; the
  running total \<^verbatim>\<open>Tsum\<close>.
\<close>

record ('a, 'n) mstate =
  stackAB :: "(addr \<times> addr) list"
  mheap :: "('a, 'n) heap"
  Tsum :: 'n

text \<open>The stacks are arrays of \<^verbatim>\<open>DepthMax*8\<close> entries.\<close>

definition stack_cap :: nat where
  "stack_cap = 100 * 8"

text \<open>
  The first half of one iteration: when either node has children, the missing children
  are generated (\<^verbatim>\<open>GenS_nodes\<close>, whose \<^verbatim>\<open>genChildren\<close> is not part of this file, is the
  parameter \<open>gen\<close>), and the child pairs are pushed in index order. Reading
  \<^verbatim>\<open>fposB->children[i]\<close> needs \<open>i\<close> below the number of children of B.
\<close>

definition descend ::
  "(addr \<Rightarrow> ('a, 'n) heap \<Rightarrow> error + ('a, 'n) heap) \<Rightarrow> addr \<Rightarrow> addr \<Rightarrow> (addr \<times> addr) list \<Rightarrow>
   ('a, 'n) heap \<Rightarrow> error + ((addr \<times> addr) list \<times> ('a, 'n) heap)" where
  "descend gen a b rest h =
     bind_err (getNode h a) (\<lambda>nA.
     bind_err (getNode h b) (\<lambda>nB.
       if length (children nA) + length (children nB) \<noteq> 0 then
         bind_err (if children nA = [] then gen a h else Inr h) (\<lambda>h1.
         bind_err (getNode h1 b) (\<lambda>nB1.
         bind_err (if children nB1 = [] then gen b h1 else Inr h1) (\<lambda>h2.
         bind_err (getNode h2 a) (\<lambda>nA2.
         bind_err (getNode h2 b) (\<lambda>nB2.
           if length (children nB2) < length (children nA2) then Inl OutOfBounds
           else if stack_cap < length rest + length (children nA2) then Inl StackOverflow
           else Inr (rev (zip (children nA2) (children nB2)) @ rest, h2))))))
       else Inr (rest, h)))"

text \<open>
  The second half: combine the coefficients, \<^verbatim>\<open>setHasWCoefs()\<close>, \<^verbatim>\<open>calcNorms()\<close>
  (the parameter \<open>calc\<close> gives the squared norm of a block), and the addition to
  \<^verbatim>\<open>Tsum\<close> for a node without children.
\<close>

definition combine_node ::
  "('a list \<Rightarrow> 'n::plus) \<Rightarrow> 'a::{plus,times} \<Rightarrow> nat \<Rightarrow> nat \<Rightarrow> addr \<Rightarrow> addr \<Rightarrow> 'n \<Rightarrow>
   ('a, 'n) heap \<Rightarrow> error + ('n \<times> ('a, 'n) heap)" where
  "combine_node calc c NG NC a b ts h =
     bind_err (getNode h a) (\<lambda>nA.
     bind_err (getNode h b) (\<lambda>nB.
     bind_err (getCoefs h nA) (\<lambda>cA.
     bind_err (getCoefs h nB) (\<lambda>cB.
     bind_err (combine c NG NC (hasWCoefs nA) (hasWCoefs nB) cA cB) (\<lambda>cA'.
       let nA' = nA\<lparr>hasWCoefs := True, squareNorm := calc cA'\<rparr>;
           h' = h\<lparr>nodes := (nodes h)(a \<mapsto> nA'), coefmem := (coefmem h)(coefvec nA \<mapsto> cA')\<rparr>
       in Inr (if children nA' = [] then ts + squareNorm nA' else ts, h'))))))"

text \<open>One iteration of \<^verbatim>\<open>while (slenA)\<close>; the stack is not empty.\<close>

definition merge_step ::
  "(addr \<Rightarrow> ('a, 'n) heap \<Rightarrow> error + ('a, 'n) heap) \<Rightarrow> ('a list \<Rightarrow> 'n::plus) \<Rightarrow> 'a::{plus,times} \<Rightarrow>
   nat \<Rightarrow> nat \<Rightarrow> ('a, 'n) mstate \<Rightarrow> error + ('a, 'n) mstate" where
  "merge_step gen calc c NG NC s =
     (case stackAB s of
        [] \<Rightarrow> Inl OutOfBounds
      | (a, b) # rest \<Rightarrow>
          bind_err (descend gen a b rest (mheap s)) (\<lambda>(stk, h1).
          bind_err (combine_node calc c NG NC a b (Tsum s) h1) (\<lambda>(ts, h2).
            Inr \<lparr>stackAB = stk, mheap = h2, Tsum = ts\<rparr>)))"

partial_function (option) merge_loop ::
  "(addr \<Rightarrow> ('a, 'n) heap \<Rightarrow> error + ('a, 'n) heap) \<Rightarrow> ('a list \<Rightarrow> 'n::plus) \<Rightarrow> 'a::{plus,times} \<Rightarrow>
   nat \<Rightarrow> nat \<Rightarrow> ('a, 'n) mstate \<Rightarrow> (error + ('a, 'n) mstate) option" where
  "merge_loop gen calc c NG NC s =
     (if stackAB s = [] then Some (Inr s)
      else (case merge_step gen calc c NG NC s of
              Inl e \<Rightarrow> Some (Inl e)
            | Inr s' \<Rightarrow> merge_loop gen calc c NG NC s'))"

text \<open>
  SerialTreeAdd: the root boxes must have the same size; the root pairs are pushed in index
  order; after the loop \<^verbatim>\<open>Tsum\<close> is stored as the tree's \<^verbatim>\<open>squareNorm\<close>. The result is
  the memory and that stored squared norm. \<open>None\<close> is a loop that never ends.
\<close>

definition SerialTreeAdd ::
  "(addr \<Rightarrow> ('a, 'n) heap \<Rightarrow> error + ('a, 'n) heap) \<Rightarrow> ('a list \<Rightarrow> 'n::{plus,zero}) \<Rightarrow> nat \<Rightarrow> nat \<Rightarrow>
   'a::{plus,times} \<Rightarrow> addr list \<Rightarrow> addr list \<Rightarrow> ('a, 'n) heap \<Rightarrow> (error + (('a, 'n) heap \<times> 'n)) option" where
  "SerialTreeAdd gen calc NG NC c rootsA rootsB h =
     (if length rootsA \<noteq> length rootsB then Some (Inl Fatal_rootBox)
      else if stack_cap < length rootsA then Some (Inl StackOverflow)
      else (case merge_loop gen calc c NG NC \<lparr>stackAB = rev (zip rootsA rootsB), mheap = h, Tsum = 0\<rparr> of
              None \<Rightarrow> None
            | Some (Inl e) \<Rightarrow> Some (Inl e)
            | Some (Inr s) \<Rightarrow> Some (Inr (mheap s, Tsum s))))"

text \<open>
  A run of the loop as the sequence of its visits: for each iteration the node of A
  that was visited, whether it had no children after the iteration, and its squared
  norm after the iteration, which is the norm of its block as it is then.
  \<open>leaf_norms\<close> are the squared norms of the visits of nodes without children, in the
  order of the visits.
\<close>

inductive visits ::
  "(addr \<Rightarrow> ('a, 'n) heap \<Rightarrow> error + ('a, 'n) heap) \<Rightarrow> ('a list \<Rightarrow> 'n::plus) \<Rightarrow> 'a::{plus,times} \<Rightarrow>
   nat \<Rightarrow> nat \<Rightarrow> ('a, 'n) mstate \<Rightarrow> (addr \<times> bool \<times> 'n) list \<Rightarrow> ('a, 'n) mstate \<Rightarrow> bool"
  for gen calc c NG NC where
    visits_done: "stackAB s = [] \<Longrightarrow> visits gen calc c NG NC s [] s"
  | visits_step:
      "stackAB s = (a, b) # rest \<Longrightarrow> merge_step gen calc c NG NC s = Inr s1 \<Longrightarrow>
       getNode (mheap s1) a = Inr nA \<Longrightarrow> getCoefs (mheap s1) nA = Inr cA \<Longrightarrow>
       squareNorm nA = calc cA \<Longrightarrow>
       visits gen calc c NG NC s1 vs s' \<Longrightarrow>
       visits gen calc c NG NC s ((a, children nA = [], squareNorm nA) # vs) s'"

definition leaf_norms :: "(addr \<times> bool \<times> 'n) list \<Rightarrow> 'n list" where
  "leaf_norms vs = map (\<lambda>(a, leaf, n). n) (filter (\<lambda>(a, leaf, n). leaf) vs)"

text \<open>
  Two single-root trees over the reals for the merge: the root of A at address 16 with its
  block at 1000, the root of B at address 32 with its block at 2000; blocks of four
  coefficients, the first two the scaling part.
\<close>

definition ex_node :: "addr \<Rightarrow> bool \<Rightarrow> real MWNode" where
  "ex_node cv w = \<lparr>NodeRank = 0, NodeCoeffIx = 0, parent = 0, children = [], coefvec = cv,
     tree = 8, hasWCoefs = w, isGenNode = False, squareNorm = 0\<rparr>"

definition ex_heap :: "bool \<Rightarrow> bool \<Rightarrow> (real, real) heap" where
  "ex_heap wA wB = \<lparr>nodes = [16 \<mapsto> ex_node 1000 wA, 32 \<mapsto> ex_node 2000 wB],
     coefmem = [1000 \<mapsto> [1, 2, 3, 4], 2000 \<mapsto> [10, 20, 30, 40]]\<rparr>"

definition ex_calc :: "real list \<Rightarrow> real" where
  "ex_calc cs = sum_list (map (\<lambda>x. x * x) cs)"

text \<open>
  Two trees of two levels: the root of A at 16 with the children 48 and 64, the root of
  B at 32 with the children 80 and 96, all holding detail coefficients; and the memory
  after each of the three visits of the merge with scale 2.
\<close>

definition ex_tnode :: "addr list \<Rightarrow> addr \<Rightarrow> addr \<Rightarrow> real MWNode" where
  "ex_tnode ch p cv = \<lparr>NodeRank = 0, NodeCoeffIx = 0, parent = p, children = ch, coefvec = cv,
     tree = 8, hasWCoefs = True, isGenNode = False, squareNorm = 0\<rparr>"

definition ex_heap2 :: "(real, real) heap" where
  "ex_heap2 = \<lparr>nodes = [16 \<mapsto> ex_tnode [48, 64] 0 1000, 48 \<mapsto> ex_tnode [] 16 1100, 64 \<mapsto> ex_tnode [] 16 1200,
                         32 \<mapsto> ex_tnode [80, 96] 0 2000, 80 \<mapsto> ex_tnode [] 32 2100, 96 \<mapsto> ex_tnode [] 32 2200],
     coefmem = [1000 \<mapsto> [1, 2, 3, 4], 1100 \<mapsto> [1, 1, 1, 1], 1200 \<mapsto> [2, 2, 2, 2],
                2000 \<mapsto> [10, 20, 30, 40], 2100 \<mapsto> [1, 0, 0, 0], 2200 \<mapsto> [0, 1, 0, 0]]\<rparr>"

definition ex_heap2a :: "(real, real) heap" where
  "ex_heap2a = ex_heap2\<lparr>nodes := (nodes ex_heap2)(16 \<mapsto> (ex_tnode [48, 64] 0 1000)\<lparr>squareNorm := 13230\<rparr>),
                          coefmem := (coefmem ex_heap2)(1000 \<mapsto> [21, 42, 63, 84])\<rparr>"

definition ex_heap2b :: "(real, real) heap" where
  "ex_heap2b = ex_heap2a\<lparr>nodes := (nodes ex_heap2a)(64 \<mapsto> (ex_tnode [] 16 1200)\<lparr>squareNorm := 28\<rparr>),
                          coefmem := (coefmem ex_heap2a)(1200 \<mapsto> [2, 4, 2, 2])\<rparr>"

definition ex_heap2c :: "(real, real) heap" where
  "ex_heap2c = ex_heap2b\<lparr>nodes := (nodes ex_heap2b)(48 \<mapsto> (ex_tnode [] 16 1100)\<lparr>squareNorm := 12\<rparr>),
                          coefmem := (coefmem ex_heap2b)(1100 \<mapsto> [3, 1, 1, 1])\<rparr>"

section \<open>Node arena and coefficient pools\<close>

text \<open>
  The messages the pool operations print with \<^verbatim>\<open>println(0, ...)\<close>, with the numbers
  they show. They are kept in the order printed.
\<close>

datatype msg =
    M_NodeStackStatus_not_available int int
  | M_minNodes_exceeded int
  | M_CoeffStackStatus_not_available int int
  | M_deleting_unallocated_coeff int
  | M_GenCoeffStackStatus_not_available int int
  | M_deleting_unallocated_Gencoeff int

text \<open>
  The members of \<^verbatim>\<open>SerialTree<D>\<close>. The three status arrays have one entry per slot and
  a last entry \<open>-1\<close>; \<open>0\<close> is a free slot, \<open>1\<close> an occupied one. \<open>NodeRankAt\<close> is the
  \<^verbatim>\<open>NodeRank\<close> field of the node slot at an address, \<open>dimD\<close> the template parameter
  \<^verbatim>\<open>D\<close>. C++ \<^verbatim>\<open>int\<close> values are integers here: the theorems are about runs in which
  no \<^verbatim>\<open>int\<close> computation overflows.
\<close>

record SerialTree =
  dimD :: nat
  nNodes :: int
  maxNodes :: int
  firstNode :: addr
  lastNode :: addr
  NodeStackStatus :: "int list"
  NodeRankAt :: "addr \<rightharpoonup> int"
  nNodesCoeff :: int
  maxNodesCoeff :: int
  CoeffStack :: "addr list"
  CoeffStackStatus :: "int list"
  firstNodeCoeff :: addr
  lastNodeCoeff :: addr
  nGenNodesCoeff :: int
  maxGenNodesCoeff :: int
  GenCoeffStack :: "addr list"
  GenCoeffStackStatus :: "int list"
  lastGenNodeCoeff :: addr
  sizeTreeMeta :: int
  sizeNodeMeta :: int
  sizeNodeCoeff :: int
  sizeGenNodeCoeff :: int
  sizeNode :: int
  SData :: addr
  GenCoeffArray :: addr
  printed :: "msg list"

text \<open>
  The constructor, up to the allocation of the root nodes. Its inputs: \<open>D\<close>, the order of
  the tree, \<^verbatim>\<open>sizeof(ProjectedNode<D>)\<close>, \<^verbatim>\<open>sizeof(FunctionTree<D>)\<close>, the addresses the two
  \<^verbatim>\<open>new double[...]\<close> return, and \<^verbatim>\<open>max_nodes\<close>. \<^verbatim>\<open>sizeof(double)\<close> is 8; adding \<open>n\<close> to a
  \<^verbatim>\<open>double*\<close> adds \<open>8 * n\<close> bytes.
\<close>

definition SerialTree_ctor :: "nat \<Rightarrow> int \<Rightarrow> int \<Rightarrow> int \<Rightarrow> addr \<Rightarrow> addr \<Rightarrow> int \<Rightarrow> SerialTree" where
  "SerialTree_ctor D order szProjectedNode szFunctionTree sdata gendata max_nodes =
     (let szNodeMeta = 16 * ((szProjectedNode + 15) div 16);
          SizeCoefOnly = (2 ^ D) * ((order + 1) ^ D) * 8;
          szTreeMeta = 16 * ((szFunctionTree + 15) div 16);
          lastN = sdata + 8 * (szTreeMeta div 8);
          lastC = sdata + 8 * (szTreeMeta div 8) + 8 * ((max_nodes * szNodeMeta) div 8)
      in \<lparr>dimD = D,
          nNodes = 0,
          maxNodes = max_nodes,
          firstNode = lastN,
          lastNode = lastN,
          NodeStackStatus = replicate (nat max_nodes) 0 @ [-1],
          NodeRankAt = Map.empty,
          nNodesCoeff = -1,
          maxNodesCoeff = max_nodes,
          CoeffStack = map (\<lambda>i. lastC + 8 * ((int i * SizeCoefOnly) div 8)) [0..<nat max_nodes],
          CoeffStackStatus = replicate (nat max_nodes) 0 @ [-1],
          firstNodeCoeff = lastC,
          lastNodeCoeff = lastC,
          nGenNodesCoeff = -1,
          maxGenNodesCoeff = max_nodes,
          GenCoeffStack = map (\<lambda>i. gendata + 8 * ((int i * SizeCoefOnly) div 8)) [0..<nat max_nodes],
          GenCoeffStackStatus = replicate (nat max_nodes) 0 @ [-1],
          lastGenNodeCoeff = gendata,
          sizeTreeMeta = szTreeMeta,
          sizeNodeMeta = szNodeMeta,
          sizeNodeCoeff = SizeCoefOnly,
          sizeGenNodeCoeff = SizeCoefOnly,
          sizeNode = szNodeMeta + SizeCoefOnly,
          SData = sdata,
          GenCoeffArray = gendata,
          printed = []\<rparr>)"

text \<open>A \<^verbatim>\<open>for\<close> loop over the indices \<open>is\<close> whose body may fail.\<close>

fun for_err :: "(nat \<Rightarrow> 's \<Rightarrow> error + 's) \<Rightarrow> nat list \<Rightarrow> 's \<Rightarrow> error + 's" where
  "for_err f [] s = Inr s"
| "for_err f (i # is) s = bind_err (f i s) (for_err f is)"

text \<open>
  The body of the loop of \<^verbatim>\<open>allocNodes\<close>, for the index \<open>k = nNodes+i-1\<close>: the rank is
  written into the node at \<^verbatim>\<open>oldlastNode\<close>, a message is printed when the slot's status
  is not 0, and the status is set to 1. An index outside the status array is an
  out-of-bounds access.
\<close>

definition mark_node :: "addr \<Rightarrow> int \<Rightarrow> SerialTree \<Rightarrow> error + SerialTree" where
  "mark_node oldlastNode k st =
     (let st1 = st\<lparr>NodeRankAt := (NodeRankAt st)(oldlastNode \<mapsto> k)\<rparr> in
      if k < 0 \<or> int (length (NodeStackStatus st1)) \<le> k then Inl OutOfBounds
      else
        let st2 = (if NodeStackStatus st1 ! nat k \<noteq> 0
                   then st1\<lparr>printed := printed st1 @ [M_NodeStackStatus_not_available k (NodeStackStatus st1 ! nat k)]\<rparr>
                   else st1)
        in Inr (st2\<lparr>NodeStackStatus := (NodeStackStatus st2)[nat k := 1]\<rparr>))"

text \<open>
  \<^verbatim>\<open>allocNodes(nAlloc)\<close>. \<^verbatim>\<open>MSG_FATAL\<close> ends the process: the result is the error. Otherwise
  the result is the old \<^verbatim>\<open>lastNode\<close> and the new state; in the loop \<^verbatim>\<open>nNodes\<close> is already
  the increased count and \<^verbatim>\<open>oldlastNode\<close> is the same address at every index.
\<close>

definition allocNodes :: "int \<Rightarrow> SerialTree \<Rightarrow> error + (addr \<times> SerialTree)" where
  "allocNodes nAlloc st =
     (let st1 = st\<lparr>nNodes := nNodes st + nAlloc\<rparr> in
      if nNodes st1 > maxNodes st1 then Inl Fatal_maxNodes
      else
        let oldlastNode = lastNode st1;
            st2 = st1\<lparr>lastNode := lastNode st1 + nAlloc * sizeNodeMeta st1\<rparr>
        in bind_err
             (for_err (\<lambda>i s. mark_node oldlastNode (nNodes s + int i - 1) s) [0..<nat nAlloc] st2)
             (\<lambda>st3. Inr (oldlastNode, st3)))"

text \<open>\<^verbatim>\<open>allocGenNodes(nAlloc)\<close>: the same statements, the result cast to \<^verbatim>\<open>GenNode<D>*\<close>.\<close>

definition allocGenNodes :: "int \<Rightarrow> SerialTree \<Rightarrow> error + (addr \<times> SerialTree)" where
  "allocGenNodes nAlloc st =
     (let st1 = st\<lparr>nNodes := nNodes st + nAlloc\<rparr> in
      if nNodes st1 > maxNodes st1 then Inl Fatal_maxNodes
      else
        let oldlastNode = lastNode st1;
            st2 = st1\<lparr>lastNode := lastNode st1 + nAlloc * sizeNodeMeta st1\<rparr>
        in bind_err
             (for_err (\<lambda>i s. mark_node oldlastNode (nNodes s + int i - 1) s) [0..<nat nAlloc] st2)
             (\<lambda>st3. Inr (oldlastNode, st3)))"

text \<open>
  \<^verbatim>\<open>while(NodeStackStatus[TopStack-1]==0 and TopStack>0) TopStack--;\<close> The source reads the
  entry before it tests \<^verbatim>\<open>TopStack>0\<close>; at \<^verbatim>\<open>TopStack = 0\<close> that entry lies before the
  array and the test fails whatever is read, so the model tests \<open>T \<le> 0\<close> first. An entry
  beyond the end of the array is an out-of-bounds access.
\<close>

function recede_nodes :: "int list \<Rightarrow> int \<Rightarrow> error + int" where
  "recede_nodes status T =
     (if T \<le> 0 then Inr T
      else if int (length status) < T then Inl OutOfBounds
      else if status ! nat (T - 1) = 0 then recede_nodes status (T - 1)
      else Inr T)"
  by pat_completeness auto
termination
  by (relation "measure (\<lambda>(status, T). nat T)") auto

text \<open>\<^verbatim>\<open>DeAllocNodes(NodeRank)\<close>.\<close>

definition DeAllocNodes :: "int \<Rightarrow> SerialTree \<Rightarrow> error + SerialTree" where
  "DeAllocNodes rank st =
     (let st1 = (if nNodes st < 0
                 then st\<lparr>printed := printed st @ [M_minNodes_exceeded (nNodes st)], nNodes := nNodes st + 1\<rparr>
                 else st) in
      if rank < 0 \<or> int (length (NodeStackStatus st1)) \<le> rank then Inl OutOfBounds
      else
        let st2 = st1\<lparr>NodeStackStatus := (NodeStackStatus st1)[nat rank := 0]\<rparr> in
        if rank = nNodes st2 - 1 then
          bind_err (recede_nodes (NodeStackStatus st2) (nNodes st2)) (\<lambda>T. Inr (st2\<lparr>nNodes := T\<rparr>))
        else Inr st2)"

text \<open>
  \<^verbatim>\<open>allocCoeff(nAllocCoeff)\<close>. The counter is increased first. A slot whose status is
  not 0 gives the null pointer and leaves the counter increased; at
  \<^verbatim>\<open>nNodesCoeff = maxNodesCoeff\<close> the status read is the last entry, \<open>-1\<close>.
\<close>

definition allocCoeff :: "int \<Rightarrow> SerialTree \<Rightarrow> error + (addr \<times> SerialTree)" where
  "allocCoeff nAllocCoeff st =
     (let st1 = st\<lparr>nNodesCoeff := nNodesCoeff st + 1\<rparr>; n = nNodesCoeff st1 in
      if nAllocCoeff \<noteq> 2 ^ dimD st1 then Inl Fatal_only_2D
      else if n > maxNodesCoeff st1 then Inl Fatal_maxNodesCoeff
      else if n < 0 \<or> int (length (CoeffStackStatus st1)) \<le> n then Inl OutOfBounds
      else if CoeffStackStatus st1 ! nat n \<noteq> 0 then
        Inr (0, st1\<lparr>printed := printed st1 @ [M_CoeffStackStatus_not_available n (CoeffStackStatus st1 ! nat n)]\<rparr>)
      else if int (length (CoeffStack st1)) \<le> n then Inl OutOfBounds
      else Inr (CoeffStack st1 ! nat n, st1\<lparr>CoeffStackStatus := (CoeffStackStatus st1)[nat n := 1]\<rparr>))"

text \<open>
  \<^verbatim>\<open>while(status[TopStack]==0 and TopStack>0) TopStack--;\<close> of the two coefficient pools.
\<close>

function recede_coeff :: "int list \<Rightarrow> int \<Rightarrow> error + int" where
  "recede_coeff status T =
     (if T < 0 \<or> int (length status) \<le> T then Inl OutOfBounds
      else if status ! nat T = 0 \<and> T > 0 then recede_coeff status (T - 1)
      else Inr T)"
  by pat_completeness auto
termination
  by (relation "measure (\<lambda>(status, T). nat T)") auto

text \<open>\<^verbatim>\<open>DeAllocCoeff(DeallocIx)\<close>: the message is printed and the release goes on.\<close>

definition DeAllocCoeff :: "int \<Rightarrow> SerialTree \<Rightarrow> error + SerialTree" where
  "DeAllocCoeff ix st =
     (if ix < 0 \<or> int (length (CoeffStackStatus st)) \<le> ix then Inl OutOfBounds
      else
        let st1 = (if CoeffStackStatus st ! nat ix = 0
                   then st\<lparr>printed := printed st @ [M_deleting_unallocated_coeff ix]\<rparr> else st);
            st2 = st1\<lparr>CoeffStackStatus := (CoeffStackStatus st1)[nat ix := 0]\<rparr>
        in if ix = nNodesCoeff st2 then
             bind_err (recede_coeff (CoeffStackStatus st2) (nNodesCoeff st2)) (\<lambda>T. Inr (st2\<lparr>nNodesCoeff := T\<rparr>))
           else Inr st2)"

text \<open>\<^verbatim>\<open>allocGenCoeff(nAllocCoeff)\<close>: here the size is checked before the counter is increased.\<close>

definition allocGenCoeff :: "int \<Rightarrow> SerialTree \<Rightarrow> error + (addr \<times> SerialTree)" where
  "allocGenCoeff nAllocCoeff st =
     (if nAllocCoeff \<noteq> 2 ^ dimD st then Inl Fatal_only_2D
      else
        let st1 = st\<lparr>nGenNodesCoeff := nGenNodesCoeff st + 1\<rparr>; n = nGenNodesCoeff st1 in
        if n > maxGenNodesCoeff st1 then Inl Fatal_maxGenNodesCoeff
        else if n < 0 \<or> int (length (GenCoeffStackStatus st1)) \<le> n then Inl OutOfBounds
        else if GenCoeffStackStatus st1 ! nat n \<noteq> 0 then
          Inr (0, st1\<lparr>printed := printed st1 @ [M_GenCoeffStackStatus_not_available n (GenCoeffStackStatus st1 ! nat n)]\<rparr>)
        else if int (length (GenCoeffStack st1)) \<le> n then Inl OutOfBounds
        else Inr (GenCoeffStack st1 ! nat n, st1\<lparr>GenCoeffStackStatus := (GenCoeffStackStatus st1)[nat n := 1]\<rparr>))"

text \<open>
  \<^verbatim>\<open>DeAllocGenCoeff(DeallocIx)\<close>: an already free slot only prints the message. The loop
  that moves the top reads \<^verbatim>\<open>CoeffStackStatus\<close>, as the source does.
\<close>

definition DeAllocGenCoeff :: "int \<Rightarrow> SerialTree \<Rightarrow> error + SerialTree" where
  "DeAllocGenCoeff ix st =
     (if ix < 0 \<or> int (length (GenCoeffStackStatus st)) \<le> ix then Inl OutOfBounds
      else if GenCoeffStackStatus st ! nat ix = 0 then
        Inr (st\<lparr>printed := printed st @ [M_deleting_unallocated_Gencoeff ix]\<rparr>)
      else
        let st2 = st\<lparr>GenCoeffStackStatus := (GenCoeffStackStatus st)[nat ix := 0]\<rparr> in
        if ix = nGenNodesCoeff st2 then
          bind_err (recede_coeff (CoeffStackStatus st2) (nGenNodesCoeff st2)) (\<lambda>T. Inr (st2\<lparr>nGenNodesCoeff := T\<rparr>))
        else Inr st2)"

text \<open>
  Sequences of pool operations, for statements about every state the pools can reach.
  Allocation counts are natural numbers. A null pointer returned by an allocation is
  not an error of the run.
\<close>

datatype pool_op =
    AllocNodes nat
  | AllocGenNodes nat
  | DeAllocNodesOp int
  | AllocCoeff
  | DeAllocCoeffOp int
  | AllocGenCoeff
  | DeAllocGenCoeffOp int

fun pool_step :: "pool_op \<Rightarrow> SerialTree \<Rightarrow> error + SerialTree" where
  "pool_step (AllocNodes n) st = bind_err (allocNodes (int n) st) (\<lambda>(p, st'). Inr st')"
| "pool_step (AllocGenNodes n) st = bind_err (allocGenNodes (int n) st) (\<lambda>(p, st'). Inr st')"
| "pool_step (DeAllocNodesOp r) st = DeAllocNodes r st"
| "pool_step AllocCoeff st = bind_err (allocCoeff (2 ^ dimD st) st) (\<lambda>(p, st'). Inr st')"
| "pool_step (DeAllocCoeffOp i) st = DeAllocCoeff i st"
| "pool_step AllocGenCoeff st = bind_err (allocGenCoeff (2 ^ dimD st) st) (\<lambda>(p, st'). Inr st')"
| "pool_step (DeAllocGenCoeffOp i) st = DeAllocGenCoeff i st"

fun pool_run :: "pool_op list \<Rightarrow> SerialTree \<Rightarrow> error + SerialTree" where
  "pool_run [] st = Inr st"
| "pool_run (op # ops) st = bind_err (pool_step op st) (pool_run ops)"

text \<open>
  \<open>N\<close> allocations of one node slot each, and a sequence of releases in the order of
  the list of ranks.
\<close>

fun alloc_singles :: "nat \<Rightarrow> SerialTree \<Rightarrow> error + SerialTree" where
  "alloc_singles 0 st = Inr st"
| "alloc_singles (Suc n) st = bind_err (allocNodes 1 st) (\<lambda>(p, st'). alloc_singles n st')"

fun release_all :: "int list \<Rightarrow> SerialTree \<Rightarrow> error + SerialTree" where
  "release_all [] st = Inr st"
| "release_all (r # rs) st = bind_err (DeAllocNodes r st) (release_all rs)"

text \<open>
  The holes of the node pool are the free slots below the top. A release is a top
  release when its rank is \<^verbatim>\<open>nNodes-1\<close> at the time it is made; \<open>nontop_releases\<close> counts
  the other releases of a sequence.
\<close>

definition holes :: "SerialTree \<Rightarrow> nat" where
  "holes st = length (filter (\<lambda>i. NodeStackStatus st ! i = 0) [0..<nat (nNodes st)])"

fun nontop_releases :: "int list \<Rightarrow> SerialTree \<Rightarrow> nat" where
  "nontop_releases [] st = 0"
| "nontop_releases (r # rs) st =
     (if r = nNodes st - 1 then 0 else 1) +
     (case DeAllocNodes r st of Inl e \<Rightarrow> 0 | Inr st' \<Rightarrow> nontop_releases rs st')"

text \<open>
  What holds of the node pool and of the permanent coefficient pool in every state the
  operations reach: the status arrays keep their length, the counters stay in range,
  and the slot at the top is not free.
\<close>

definition node_pool_ok :: "SerialTree \<Rightarrow> bool" where
  "node_pool_ok st \<longleftrightarrow>
     0 \<le> maxNodes st \<and> length (NodeStackStatus st) = nat (maxNodes st) + 1 \<and>
     0 \<le> nNodes st \<and> nNodes st \<le> maxNodes st \<and>
     (nNodes st = 0 \<or> NodeStackStatus st ! nat (nNodes st - 1) \<noteq> 0)"

definition coeff_pool_ok :: "SerialTree \<Rightarrow> bool" where
  "coeff_pool_ok st \<longleftrightarrow>
     0 \<le> maxNodesCoeff st \<and> length (CoeffStackStatus st) = nat (maxNodesCoeff st) + 1 \<and>
     - 1 \<le> nNodesCoeff st \<and> nNodesCoeff st \<le> maxNodesCoeff st \<and>
     (nNodesCoeff st \<le> 0 \<or> CoeffStackStatus st ! nat (nNodesCoeff st) \<noteq> 0)"

text \<open>A pool of four slots, for dimension 1 and order 1.\<close>

definition ex_pool :: SerialTree where
  "ex_pool = SerialTree_ctor 1 1 100 200 4096 65536 4"

text \<open>
  What an operation leaves as it is: the members set once by the constructor, the
  counter and status array of the permanent coefficient pool, those of the node pool.
\<close>

definition frame_const :: "SerialTree \<Rightarrow> SerialTree \<Rightarrow> bool" where
  "frame_const st st' \<longleftrightarrow>
     CoeffStack st' = CoeffStack st \<and> firstNodeCoeff st' = firstNodeCoeff st \<and>
     sizeNodeCoeff st' = sizeNodeCoeff st \<and> maxNodesCoeff st' = maxNodesCoeff st \<and>
     maxNodes st' = maxNodes st \<and> dimD st' = dimD st \<and>
     length (GenCoeffStackStatus st') = length (GenCoeffStackStatus st)"

definition frame_coeff :: "SerialTree \<Rightarrow> SerialTree \<Rightarrow> bool" where
  "frame_coeff st st' \<longleftrightarrow> nNodesCoeff st' = nNodesCoeff st \<and> CoeffStackStatus st' = CoeffStackStatus st"

definition frame_nodes :: "SerialTree \<Rightarrow> SerialTree \<Rightarrow> bool" where
  "frame_nodes st st' \<longleftrightarrow> nNodes st' = nNodes st \<and> NodeStackStatus st' = NodeStackStatus st"

text \<open>
  The example pool after three allocations of one slot, and after the release of
  slot 0 from there.
\<close>

definition ex_pool3 :: SerialTree where
  "ex_pool3 = ex_pool\<lparr>nNodes := 3, lastNode := 4640,
     NodeStackStatus := [1, 1, 1, 0, -1],
     NodeRankAt := [4304 \<mapsto> 0, 4416 \<mapsto> 1, 4528 \<mapsto> 2]\<rparr>"




section \<open>Standalone recompression: S_mwTreeTransformUp\<close>

text \<open>
  \<^verbatim>\<open>S_mwTransformBack(coeff_in, coeff_out, Children_Stride)\<close>. The kernel refuses any
  \<open>D\<close> other than 3. It reads the \<open>2^D\<close> blocks that start \<^verbatim>\<open>Children_Stride\<close> doubles
  apart from \<^verbatim>\<open>coeff_in\<close> on, and writes the block at \<^verbatim>\<open>coeff_out\<close>.

  Modelled from the spec: \<^verbatim>\<open>MathUtils::applyFilter\<close> and the filter matrices are not part of
  the sources. The first filter applied to each output block overwrites it, so the
  block written is a function of the blocks read; that function is the parameter \<open>K\<close>.
\<close>

fun read_blocks :: "(addr \<rightharpoonup> 'a list) \<Rightarrow> addr list \<Rightarrow> error + 'a list list" where
  "read_blocks mem [] = Inr []"
| "read_blocks mem (p # ps) =
     (case mem p of
        None \<Rightarrow> Inl DanglingPointer
      | Some b \<Rightarrow> bind_err (read_blocks mem ps) (\<lambda>bs. Inr (b # bs)))"

definition S_mwTransformBack ::
  "nat \<Rightarrow> ('a list list \<Rightarrow> 'a list) \<Rightarrow> addr \<Rightarrow> addr \<Rightarrow> int \<Rightarrow> (addr \<rightharpoonup> 'a list) \<Rightarrow>
   error + (addr \<rightharpoonup> 'a list)" where
  "S_mwTransformBack D K coeff_in coeff_out Children_Stride mem =
     (if D \<noteq> 3 then Inl Fatal_only_D3
      else if mem coeff_out = None then Inl DanglingPointer
      else bind_err
             (read_blocks mem (map (\<lambda>ft. coeff_in + 8 * (int ft * Children_Stride)) [0..<2 ^ D]))
             (\<lambda>ins. Inr (mem(coeff_out \<mapsto> K ins))))"

text \<open>
  The loop state of S_mwTreeTransformUp: the stack with the top first (the source
  keeps it in \<^verbatim>\<open>stack[1..slen]\<close>, so it holds at most \<^verbatim>\<open>DepthMax*8 - 1\<close> entries), the array
  \<^verbatim>\<open>status\<close> indexed by rank, and the memory.
\<close>

record ('a, 'n) ustate =
  ustack :: "addr list"
  ustatus :: "int list"
  uheap :: "('a, 'n) heap"

definition rd_status :: "int list \<Rightarrow> int \<Rightarrow> error + int" where
  "rd_status st r = (if 0 \<le> r \<and> r < int (length st) then Inr (st ! nat r) else Inl OutOfBounds)"

text \<open>
  The loop over the children of \<^verbatim>\<open>fpos\<close>: a child whose status is positive or that has
  no children counts in \<^verbatim>\<open>childok\<close>; any other child is pushed.
\<close>

fun scan_children ::
  "('a, 'n) heap \<Rightarrow> int list \<Rightarrow> addr list \<Rightarrow> nat \<times> addr list \<Rightarrow> error + (nat \<times> addr list)" where
  "scan_children h st [] acc = Inr acc"
| "scan_children h st (c # cs) acc =
     bind_err (getNode h c) (\<lambda>nc.
     bind_err (rd_status st (NodeRank nc)) (\<lambda>sc.
       if sc > 0 \<or> children nc = [] then scan_children h st cs (fst acc + 1, snd acc)
       else if children nc \<noteq> [] then
         (if stack_cap \<le> length (snd acc) + 1 then Inl StackOverflow
          else scan_children h st cs (fst acc, c # snd acc))
       else scan_children h st cs acc))"

text \<open>One iteration of \<^verbatim>\<open>while (slen)\<close>.\<close>

definition up_step ::
  "nat \<Rightarrow> ('a list list \<Rightarrow> 'a list) \<Rightarrow> int \<Rightarrow> ('a, 'n) ustate \<Rightarrow> error + ('a, 'n) ustate" where
  "up_step D K stride s =
     (case ustack s of
        [] \<Rightarrow> Inl OutOfBounds
      | fpos # rest \<Rightarrow>
          bind_err (getNode (uheap s) fpos) (\<lambda>n.
          bind_err (rd_status (ustatus s) (NodeRank n)) (\<lambda>sf.
            if children n \<noteq> [] \<and> sf = 0 then
              bind_err (scan_children (uheap s) (ustatus s) (children n) (0, fpos # rest)) (\<lambda>(childok, stk).
                if childok = length (children n) then
                  bind_err (getNode (uheap s) (hd (children n))) (\<lambda>n0.
                  bind_err (S_mwTransformBack D K (coefvec n0) (coefvec n) stride (coefmem (uheap s))) (\<lambda>mem'.
                    Inr \<lparr>ustack = stk,
                         ustatus = (ustatus s)[nat (NodeRank n) := 1],
                         uheap = (uheap s)\<lparr>coefmem := mem'\<rparr>\<rparr>))
                else Inr (s\<lparr>ustack := stk\<rparr>))
            else Inr (s\<lparr>ustack := rest, ustatus := (ustatus s)[nat (NodeRank n) := 1]\<rparr>))))"

partial_function (option) up_loop ::
  "nat \<Rightarrow> ('a list list \<Rightarrow> 'a list) \<Rightarrow> int \<Rightarrow> ('a, 'n) ustate \<Rightarrow> (error + ('a, 'n) ustate) option" where
  "up_loop D K stride s =
     (if ustack s = [] then Some (Inr s)
      else (case up_step D K stride s of
              Inl e \<Rightarrow> Some (Inl e)
            | Inr s' \<Rightarrow> up_loop D K stride s'))"

text \<open>
  The loop over the root box: each root is pushed and its status set to 0 when it has
  children and to 1 otherwise.
\<close>

fun up_roots ::
  "('a, 'n) heap \<Rightarrow> addr list \<Rightarrow> addr list \<times> int list \<Rightarrow> error + (addr list \<times> int list)" where
  "up_roots h [] acc = Inr acc"
| "up_roots h (r # rs) acc =
     (if stack_cap \<le> length (fst acc) + 1 then Inl StackOverflow
      else bind_err (getNode h r) (\<lambda>n.
           bind_err (rd_status (snd acc) (NodeRank n)) (\<lambda>x.
             up_roots h rs (r # fst acc,
               (snd acc)[nat (NodeRank n) := (if children n \<noteq> [] then 0 else 1)]))))"

text \<open>
  S_mwTreeTransformUp. Its inputs: \<open>D\<close>, the kernel, \<^verbatim>\<open>Children_Stride\<close>, \<^verbatim>\<open>this->nNodes\<close>
  (the length of \<^verbatim>\<open>status\<close>), the addresses of the root nodes in the order of the root
  box, and the memory. The result is the memory; \<open>None\<close> is a loop that never ends.
\<close>

definition S_mwTreeTransformUp ::
  "nat \<Rightarrow> ('a list list \<Rightarrow> 'a list) \<Rightarrow> int \<Rightarrow> int \<Rightarrow> addr list \<Rightarrow> ('a, 'n) heap \<Rightarrow>
   (error + ('a, 'n) heap) option" where
  "S_mwTreeTransformUp D K stride nN roots h =
     (case up_roots h roots ([], replicate (nat nN) 0) of
        Inl e \<Rightarrow> Some (Inl e)
      | Inr (stk, st) \<Rightarrow>
          (case up_loop D K stride \<lparr>ustack = stk, ustatus = st, uheap = h\<rparr> of
             None \<Rightarrow> None
           | Some (Inl e) \<Rightarrow> Some (Inl e)
           | Some (Inr s) \<Rightarrow> Some (Inr (uheap s))))"

text \<open>
  The shape of a tree in memory: the address of a node and the shapes of its children,
  in the order of \<^verbatim>\<open>children[]\<close>. \<open>addrs\<close> lists the nodes of a shape, \<open>intern\<close> those with
  children.
\<close>

datatype shape = Sh (root_of: addr) (kids: "shape list")

primrec addrs :: "shape \<Rightarrow> addr list" and addrsF :: "shape list \<Rightarrow> addr list" where
  "addrs (Sh a ts) = a # addrsF ts"
| "addrsF [] = []"
| "addrsF (t # ts) = addrs t @ addrsF ts"

primrec intern :: "shape \<Rightarrow> addr list" and internF :: "shape list \<Rightarrow> addr list" where
  "intern (Sh a ts) = (if ts = [] then [] else a # internF ts)"
| "internF [] = []"
| "internF (t # ts) = intern t @ internF ts"

text \<open>The memory holds the tree of a shape: every node is there with these children.\<close>

primrec repr :: "(addr \<rightharpoonup> 'n MWNode) \<Rightarrow> shape \<Rightarrow> bool"
    and reprF :: "(addr \<rightharpoonup> 'n MWNode) \<Rightarrow> shape list \<Rightarrow> bool" where
  "repr N (Sh a ts) \<longleftrightarrow>
     (case N a of None \<Rightarrow> False | Some n \<Rightarrow> children n = map root_of ts) \<and> reprF N ts"
| "reprF N [] \<longleftrightarrow> True"
| "reprF N (t # ts) \<longleftrightarrow> repr N t \<and> reprF N ts"

definition rk_of :: "(addr \<rightharpoonup> 'n MWNode) \<Rightarrow> addr \<Rightarrow> int" where
  "rk_of N a = (case N a of None \<Rightarrow> 0 | Some n \<Rightarrow> NodeRank n)"

definition cv_of :: "(addr \<rightharpoonup> 'n MWNode) \<Rightarrow> addr \<Rightarrow> addr" where
  "cv_of N a = (case N a of None \<Rightarrow> 0 | Some n \<Rightarrow> coefvec n)"

text \<open>
  Every node with children has \<open>2^D\<close> of them, and their blocks lie \<open>stride\<close> doubles
  apart in the order of the children (what S_mwTransformBack assumes of its input).
\<close>

primrec contig :: "(addr \<rightharpoonup> 'n MWNode) \<Rightarrow> nat \<Rightarrow> int \<Rightarrow> shape \<Rightarrow> bool"
    and contigF :: "(addr \<rightharpoonup> 'n MWNode) \<Rightarrow> nat \<Rightarrow> int \<Rightarrow> shape list \<Rightarrow> bool" where
  "contig N D stride (Sh a ts) \<longleftrightarrow>
     (ts = [] \<or>
      (length ts = 2 ^ D \<and>
       map (\<lambda>t. cv_of N (root_of t)) ts =
         map (\<lambda>ft. cv_of N (root_of (hd ts)) + 8 * (int ft * stride)) [0..<2 ^ D])) \<and>
     contigF N D stride ts"
| "contigF N D stride [] \<longleftrightarrow> True"
| "contigF N D stride (t # ts) \<longleftrightarrow> contig N D stride t \<and> contigF N D stride ts"

text \<open>
  The number of stack entries the pass needs for a tree on top of the stack: the node
  itself and, above it, its children with children, each processed while the ones
  pushed before it are still below. \<open>needR\<close> is the same for a list of trees that are
  all on the stack, the last one on top.
\<close>

primrec need :: "shape \<Rightarrow> nat" and needK :: "shape list \<Rightarrow> nat" where
  "need (Sh a ts) = 1 + needK ts"
| "needK [] = 0"
| "needK (t # ts) = (if kids t = [] then needK ts else max (need t) (1 + needK ts))"

primrec needR :: "shape list \<Rightarrow> nat" where
  "needR [] = 0"
| "needR (t # ts) = max (need t) (1 + needR ts)"

text \<open>
  What the pass computes, by recursion on the shape: the later children first, then
  the node's own block from the blocks of its children. \<open>cv\<close> gives the block address
  of a node.
\<close>

definition write_block ::
  "('a list list \<Rightarrow> 'a list) \<Rightarrow> (addr \<Rightarrow> addr) \<Rightarrow> addr \<Rightarrow> addr list \<Rightarrow> (addr \<rightharpoonup> 'a list) \<Rightarrow> (addr \<rightharpoonup> 'a list)" where
  "write_block K cv a cs mem = mem(cv a \<mapsto> K (map (\<lambda>c. the (mem (cv c))) cs))"

primrec recomp :: "('a list list \<Rightarrow> 'a list) \<Rightarrow> (addr \<Rightarrow> addr) \<Rightarrow> shape \<Rightarrow> (addr \<rightharpoonup> 'a list) \<Rightarrow> (addr \<rightharpoonup> 'a list)"
    and recompF :: "('a list list \<Rightarrow> 'a list) \<Rightarrow> (addr \<Rightarrow> addr) \<Rightarrow> shape list \<Rightarrow> (addr \<rightharpoonup> 'a list) \<Rightarrow> (addr \<rightharpoonup> 'a list)" where
  "recomp K cv (Sh a ts) mem =
     (if ts = [] then mem else write_block K cv a (map root_of ts) (recompF K cv ts mem))"
| "recompF K cv [] mem = mem"
| "recompF K cv (t # ts) mem = recomp K cv t (recompF K cv ts mem)"

text \<open>
  The trees the pass is proved for: \<open>D\<close> is 3, the memory holds the shapes, the nodes
  are distinct, their ranks are distinct and index \<^verbatim>\<open>status\<close>, their blocks are distinct
  and exist, the blocks of siblings lie \<open>stride\<close> apart, and the stack is large enough.
\<close>

definition up_wf :: "nat \<Rightarrow> int \<Rightarrow> int \<Rightarrow> ('a, 'n) heap \<Rightarrow> shape list \<Rightarrow> bool" where
  "up_wf D stride nN h ts \<longleftrightarrow>
     D = 3 \<and> reprF (nodes h) ts \<and> contigF (nodes h) D stride ts \<and>
     distinct (addrsF ts) \<and>
     distinct (map (rk_of (nodes h)) (addrsF ts)) \<and>
     list_all (\<lambda>a. 0 \<le> rk_of (nodes h) a \<and> rk_of (nodes h) a < nN) (addrsF ts) \<and>
     distinct (map (cv_of (nodes h)) (addrsF ts)) \<and>
     list_all (\<lambda>a. coefmem h (cv_of (nodes h) a) \<noteq> None) (addrsF ts) \<and>
     needR ts < stack_cap"

text \<open>
  The test the source makes of a child: its status is positive or it has no children.
\<close>

definition child_ok :: "('a, 'n) heap \<Rightarrow> int list \<Rightarrow> addr \<Rightarrow> bool" where
  "child_ok h st c \<longleftrightarrow>
     (case nodes h c of
        None \<Rightarrow> False
      | Some nc \<Rightarrow> 0 \<le> NodeRank nc \<and> NodeRank nc < int (length st) \<and>
                  (st ! nat (NodeRank nc) > 0 \<or> children nc = []))"

text \<open>
  Auxiliary notions for the proofs about the pass: what is assumed of the nodes at the
  addresses \<open>as\<close>, and the nodes whose status the pass sets when a tree is taken from the
  stack.
\<close>

definition nodes_ok :: "(addr \<rightharpoonup> 'n MWNode) \<Rightarrow> nat \<Rightarrow> (addr \<rightharpoonup> 'a list) \<Rightarrow> addr list \<Rightarrow> bool" where
  "nodes_ok N len mem as \<longleftrightarrow>
     distinct as \<and> distinct (map (rk_of N) as) \<and>
     (\<forall>a\<in>set as. 0 \<le> rk_of N a \<and> rk_of N a < int len) \<and>
     distinct (map (cv_of N) as) \<and> (\<forall>a\<in>set as. mem (cv_of N a) \<noteq> None)"

definition touched :: "shape \<Rightarrow> addr list" where
  "touched t = (if kids t = [] then [root_of t] else intern t)"

definition marked :: "(addr \<rightharpoonup> 'n MWNode) \<Rightarrow> addr list \<Rightarrow> int list \<Rightarrow> int list \<Rightarrow> bool" where
  "marked N as st st' \<longleftrightarrow>
     length st' = length st \<and>
     (\<forall>i<length st. st' ! i = (if int i \<in> rk_of N ` set as then 1 else st ! i))"

text \<open>
  What is assumed and what is shown of the pass for one tree whose root is on top of
  the stack, above the entries \<open>rest\<close>, and for a list of trees on the stack, the last
  one on top.
\<close>

definition tree_pre :: "nat \<Rightarrow> int \<Rightarrow> ('a, 'n) heap \<Rightarrow> int list \<Rightarrow> addr list \<Rightarrow> shape \<Rightarrow> bool" where
  "tree_pre D stride h st rest t \<longleftrightarrow>
     D = 3 \<and> repr (nodes h) t \<and> contig (nodes h) D stride t \<and>
     nodes_ok (nodes h) (length st) (coefmem h) (addrs t) \<and>
     (\<forall>a\<in>set (intern t). st ! nat (rk_of (nodes h) a) = 0) \<and>
     length rest + need t < stack_cap"

definition tree_post ::
  "nat \<Rightarrow> ('a list list \<Rightarrow> 'a list) \<Rightarrow> int \<Rightarrow> ('a, 'n) heap \<Rightarrow> int list \<Rightarrow> addr list \<Rightarrow> shape \<Rightarrow> bool" where
  "tree_post D K stride h st rest t \<longleftrightarrow>
     (\<exists>st'. marked (nodes h) (touched t) st st' \<and>
        up_loop D K stride \<lparr>ustack = root_of t # rest, ustatus = st, uheap = h\<rparr> =
        up_loop D K stride \<lparr>ustack = rest, ustatus = st',
          uheap = h\<lparr>coefmem := recomp K (cv_of (nodes h)) t (coefmem h)\<rparr>\<rparr>)"

definition forest_pre :: "nat \<Rightarrow> int \<Rightarrow> ('a, 'n) heap \<Rightarrow> int list \<Rightarrow> addr list \<Rightarrow> shape list \<Rightarrow> bool" where
  "forest_pre D stride h st rest us \<longleftrightarrow>
     D = 3 \<and> reprF (nodes h) us \<and> contigF (nodes h) D stride us \<and>
     nodes_ok (nodes h) (length st) (coefmem h) (addrsF us) \<and>
     (\<forall>a\<in>set (internF us). st ! nat (rk_of (nodes h) a) = 0) \<and>
     length rest + needR us < stack_cap"

definition forest_post ::
  "nat \<Rightarrow> ('a list list \<Rightarrow> 'a list) \<Rightarrow> int \<Rightarrow> ('a, 'n) heap \<Rightarrow> int list \<Rightarrow> addr list \<Rightarrow> shape list \<Rightarrow> bool" where
  "forest_post D K stride h st rest us \<longleftrightarrow>
     (\<exists>st'. marked (nodes h) (concat (map touched us)) st st' \<and>
        up_loop D K stride \<lparr>ustack = rev (map root_of us) @ rest, ustatus = st, uheap = h\<rparr> =
        up_loop D K stride \<lparr>ustack = rest, ustatus = st',
          uheap = h\<lparr>coefmem := recompF K (cv_of (nodes h)) us (coefmem h)\<rparr>\<rparr>)"

text \<open>
  The children of the node at an address (none when there is no node), and the shapes
  in which every leaf is at depth \<open>d\<close>.
\<close>

definition kids_of :: "(addr \<rightharpoonup> 'n MWNode) \<Rightarrow> addr \<Rightarrow> addr list" where
  "kids_of N a = (case N a of None \<Rightarrow> [] | Some n \<Rightarrow> children n)"

primrec uniform :: "shape \<Rightarrow> nat \<Rightarrow> bool" and uniformF :: "shape list \<Rightarrow> nat \<Rightarrow> bool" where
  "uniform (Sh a ts) d = (case d of 0 \<Rightarrow> ts = [] | Suc k \<Rightarrow> ts \<noteq> [] \<and> uniformF ts k)"
| "uniformF [] d = True"
| "uniformF (t # ts) d = (uniform t d \<and> uniformF ts d)"

subsection \<open>A tree of uniform depth 2\<close>

text \<open>
  One root at 1000 with rank 0, its 8 children at 2000 + 100 i with ranks 1 + i, and their
  8 children each at 10000 + 1000 i + 100 j with ranks 9 + 8 i + j; the blocks of siblings
  lie 8 doubles apart. Every block holds its own address. \<open>ex_up_state\<close> is the
  loop state with the first child of the root on top of the stack, \<open>ex_up_state1\<close> the
  state after one more iteration.
\<close>

definition up_node :: "int \<Rightarrow> addr list \<Rightarrow> addr \<Rightarrow> addr \<Rightarrow> int MWNode" where
  "up_node r cs cv p =
     \<lparr>NodeRank = r, NodeCoeffIx = r, parent = p, children = cs, coefvec = cv, tree = 500,
      hasWCoefs = True, isGenNode = False, squareNorm = 0\<rparr>"

definition ex_up_nodes :: "addr \<rightharpoonup> int MWNode" where
  "ex_up_nodes a =
     (if a = 1000 then Some (up_node 0 (map (\<lambda>i. 2000 + 100 * int i) [0..<8]) 100000 0)
      else if 2000 \<le> a \<and> a < 2800 \<and> a mod 100 = 0 then
        Some (up_node (1 + (a - 2000) div 100)
                (map (\<lambda>j. 10000 + 1000 * ((a - 2000) div 100) + 100 * int j) [0..<8])
                (200000 + 64 * ((a - 2000) div 100)) 1000)
      else if 10000 \<le> a \<and> a < 18000 \<and> a mod 100 = 0 \<and> a mod 1000 < 800 then
        Some (up_node (9 + 8 * ((a - 10000) div 1000) + (a mod 1000) div 100) []
                (300000 + 512 * ((a - 10000) div 1000) + 64 * ((a mod 1000) div 100))
                (2000 + 100 * ((a - 10000) div 1000)))
      else None)"

definition ex_up_mem :: "addr \<rightharpoonup> int list" where
  "ex_up_mem p = (if 100000 \<le> p \<and> p < 400000 \<and> p mod 8 = 0 then Some [p] else None)"

definition ex_up_heap :: "(int, int) heap" where
  "ex_up_heap = \<lparr>nodes = ex_up_nodes, coefmem = ex_up_mem\<rparr>"

definition ex_up_shape :: shape where
  "ex_up_shape =
     Sh 1000 (map (\<lambda>i. Sh (2000 + 100 * int i)
                          (map (\<lambda>j. Sh (10000 + 1000 * int i + 100 * int j) []) [0..<8]))
                [0..<8])"

definition ex_up_state :: "(int, int) ustate" where
  "ex_up_state = \<lparr>ustack = [2000, 1000], ustatus = replicate 73 0, uheap = ex_up_heap\<rparr>"

definition ex_up_state1 :: "(int, int) ustate" where
  "ex_up_state1 =
     \<lparr>ustack = [2000, 1000], ustatus = (replicate 73 0)[1 := 1],
      uheap = ex_up_heap\<lparr>coefmem := ex_up_mem(200000 \<mapsto>
                [300000, 300064, 300128, 300192, 300256, 300320, 300384, 300448])\<rparr>\<rparr>"

section \<open>Relocation: RewritePointers\<close>















subsection \<open>A binary tree of depth 3 in an arena that is moved\<close>






section \<open>Properties of the merge\<close>

lemma bind_err_simps:
  "bind_err (Inr v) f = f v"
  "bind_err (Inl e) f = Inl e"
  by (simp_all add: bind_err_def)

lemma bind_err_Inr: "bind_err m f = Inr r \<longleftrightarrow> (\<exists>v. m = Inr v \<and> f v = Inr r)"
  by (cases m) (simp_all add: bind_err_def)

lemma fold_upd_length:
  "length (fold (\<lambda>i xs. xs[i := g i (xs ! i)]) is cA) = length cA"
  by (induction "is" arbitrary: cA) auto

lemma fold_upd_nth:
  "j < length cA \<Longrightarrow>
   fold (\<lambda>i xs. xs[i := g i (xs ! i)]) [lo..<hi] cA ! j =
     (if lo \<le> j \<and> j < hi then g j (cA ! j) else cA ! j)"
proof (induction hi)
  case 0
  then show ?case by simp
next
  case (Suc hi)
  let ?xs = "fold (\<lambda>i xs. xs[i := g i (xs ! i)]) [lo..<hi] cA"
  have len: "length ?xs = length cA" by (rule fold_upd_length)
  show ?case
  proof (cases "lo \<le> hi")
    case True
    then have unf: "fold (\<lambda>i xs. xs[i := g i (xs ! i)]) [lo..<Suc hi] cA = ?xs[hi := g hi (?xs ! hi)]"
      by simp
    show ?thesis
    proof (cases "j = hi")
      case True
      with Suc len \<open>lo \<le> hi\<close> show ?thesis unfolding unf by simp
    next
      case False
      with Suc len \<open>lo \<le> hi\<close> show ?thesis unfolding unf by auto
    qed
  next
    case False
    then show ?thesis using Suc by auto
  qed
qed

lemma add_range_nth:
  assumes "add_range c cB lo hi cA = Inr r"
  shows "length r = length cA"
    and "j < length cA \<Longrightarrow> r ! j = (if lo \<le> j \<and> j < hi then cA ! j + c * cB ! j else cA ! j)"
  using assms fold_upd_length[of "\<lambda>i x. x + c * cB ! i" "[lo..<hi]" cA]
    fold_upd_nth[of j cA "\<lambda>i x. x + c * cB ! i" lo hi]
  by (auto simp: add_range_def split: if_splits)

lemma copy_range_nth:
  assumes "copy_range c cB lo hi cA = Inr r"
  shows "length r = length cA"
    and "j < length cA \<Longrightarrow> r ! j = (if lo \<le> j \<and> j < hi then c * cB ! j else cA ! j)"
  using assms fold_upd_length[of "\<lambda>i x. c * cB ! i" "[lo..<hi]" cA]
    fold_upd_nth[of j cA "\<lambda>i x. c * cB ! i" lo hi]
  by (auto simp: copy_range_def split: if_splits)

lemma add_range_ok: "hi \<le> length cA \<Longrightarrow> hi \<le> length cB \<Longrightarrow> \<exists>r. add_range c cB lo hi cA = Inr r"
  by (auto simp: add_range_def)

lemma copy_range_ok: "hi \<le> length cA \<Longrightarrow> hi \<le> length cB \<Longrightarrow> \<exists>r. copy_range c cB lo hi cA = Inr r"
  by (auto simp: copy_range_def)


lemma add_range_take:
  assumes "add_range c cB 0 hi cA = Inr r" "hi \<le> length cA" "hi \<le> length cB"
  shows "take hi r = map2 (\<lambda>x y. x + c * y) (take hi cA) (take hi cB)"
  using assms add_range_nth[OF assms(1)]
  by (intro nth_equalityI) auto

lemma add_range_drop:
  assumes "add_range c cB 0 hi cA = Inr r"
  shows "drop hi r = drop hi cA"
  using add_range_nth[OF assms]
  by (intro nth_equalityI) auto

lemma copy_range_take:
  assumes "copy_range c cB lo hi cA = Inr r"
  shows "take lo r = take lo cA"
  using copy_range_nth[OF assms]
  by (intro nth_equalityI) auto

lemma copy_range_drop:
  assumes "copy_range c cB lo hi cA = Inr r" "length cA = hi" "length cB = hi"
  shows "drop lo r = map (\<lambda>y. c * y) (drop lo cB)"
  using assms copy_range_nth[OF assms(1)]
  by (intro nth_equalityI) auto

lemma combine_node_result:
  assumes "combine_node calc c NG NC a b ts h = Inr (ts', h')"
      and "getNode h a = Inr nA" "getNode h b = Inr nB"
      and "getCoefs h nA = Inr cA" "getCoefs h nB = Inr cB"
  shows "\<exists>cA'. combine c NG NC (hasWCoefs nA) (hasWCoefs nB) cA cB = Inr cA' \<and>
           getNode h' a = Inr (nA\<lparr>hasWCoefs := True, squareNorm := calc cA'\<rparr>) \<and>
           getCoefs h' (nA\<lparr>hasWCoefs := True, squareNorm := calc cA'\<rparr>) = Inr cA' \<and>
           ts' = (if children nA = [] then ts + calc cA' else ts)"
  using assms
  by (auto simp: combine_node_def bind_err_Inr Let_def getNode_def getCoefs_def)

lemma merge_step_unfold:
  assumes "stackAB s = (a, b) # rest" "descend gen a b rest (mheap s) = Inr (stk, h1)"
  shows "merge_step gen calc c NG NC s =
           bind_err (combine_node calc c NG NC a b (Tsum s) h1) (\<lambda>(ts, h2).
             Inr \<lparr>stackAB = stk, mheap = h2, Tsum = ts\<rparr>)"
  using assms by (simp add: merge_step_def bind_err_simps)

lemma combine_node_run:
  assumes "getNode h a = Inr nA" "getNode h b = Inr nB"
      and "getCoefs h nA = Inr cA" "getCoefs h nB = Inr cB"
      and "combine c NG NC (hasWCoefs nA) (hasWCoefs nB) cA cB = Inr cA'"
  shows "combine_node calc c NG NC a b ts h =
           Inr (if children nA = [] then ts + calc cA' else ts,
                h\<lparr>nodes := (nodes h)(a \<mapsto> nA\<lparr>hasWCoefs := True, squareNorm := calc cA'\<rparr>),
                  coefmem := (coefmem h)(coefvec nA \<mapsto> cA')\<rparr>)"
  using assms by (simp add: combine_node_def bind_err_simps Let_def)

lemma combine_rows:
  assumes "length cA = NC" "length cB = NC" "NG \<le> NC"
  shows "\<exists>cA'. combine c NG NC wA wB cA cB = Inr cA' \<and> length cA' = NC \<and>
           take NG cA' = map2 (\<lambda>x y. x + c * y) (take NG cA) (take NG cB) \<and>
           drop NG cA' =
             (if wB then (if wA then map2 (\<lambda>x y. x + c * y) (drop NG cA) (drop NG cB)
                          else map (\<lambda>y. c * y) (drop NG cB))
              else drop NG cA)"
proof -
  obtain r1 where r1: "add_range c cB 0 NG cA = Inr r1"
    using add_range_ok[of NG cA cB c 0] assms by auto
  obtain r2 where r2: "add_range c cB 0 NC cA = Inr r2"
    using add_range_ok[of NC cA cB c 0] assms by auto
  have l1: "length r1 = NC" using add_range_nth(1)[OF r1] assms by simp
  obtain r3 where r3: "copy_range c cB NG NC r1 = Inr r3"
    using copy_range_ok[of NC r1 cB c NG] assms l1 by auto
  have l2: "length r2 = NC" using add_range_nth(1)[OF r2] assms by simp
  have l3: "length r3 = NC" using copy_range_nth(1)[OF r3] l1 by simp
  have t1: "take NG r1 = map2 (\<lambda>x y. x + c * y) (take NG cA) (take NG cB)"
    using add_range_take[OF r1] assms by simp
  have d1: "drop NG r1 = drop NG cA" by (rule add_range_drop[OF r1])
  have n2: "\<And>j. j < NC \<Longrightarrow> r2 ! j = cA ! j + c * cB ! j"
    using add_range_nth(2)[OF r2] assms by simp
  have t2: "take NG r2 = map2 (\<lambda>x y. x + c * y) (take NG cA) (take NG cB)"
    using n2 l2 assms by (intro nth_equalityI) auto
  have d2: "drop NG r2 = map2 (\<lambda>x y. x + c * y) (drop NG cA) (drop NG cB)"
    using n2 l2 assms by (intro nth_equalityI) auto
  have t3: "take NG r3 = take NG r1" by (rule copy_range_take[OF r3])
  have d3: "drop NG r3 = map (\<lambda>y. c * y) (drop NG cB)"
    using copy_range_drop[OF r3] l1 assms by simp
  show ?thesis
    using r1 r2 r3 l1 l2 l3 t1 t2 t3 d1 d2 d3
    by (cases wA; cases wB) (simp_all add: combine_def bind_err_simps)
qed

text \<open>
  Claim C1 (merge combine policy). At a node pair \<open>(A, B)\<close> visited by the top-down merge,
  with blocks of \<open>NC\<close> coefficients of which the first \<open>NG\<close> are the scaling part, and exactly
  one of the two nodes holding detail coefficients: the iteration succeeds, the scaling
  part of A becomes \<open>A + c * B\<close>; when A held the detail, its detail part is unchanged; when
  B held the detail, the detail part of A becomes \<open>c * B\<close> (a copy, not a sum) and A is
  marked as holding detail. The scale \<open>c\<close> is arbitrary, \<open>2\<close> included.
\<close>

theorem merge_combine_policy:
  assumes "stackAB s = (a, b) # rest"
      and "descend gen a b rest (mheap s) = Inr (stk, h1)"
      and "getNode h1 a = Inr nA" and "getNode h1 b = Inr nB"
      and "getCoefs h1 nA = Inr cA" and "getCoefs h1 nB = Inr cB"
      and "length cA = NC" and "length cB = NC" and "NG \<le> NC"
      and "hasWCoefs nA \<noteq> hasWCoefs nB"
  shows "\<exists>s' nA' cA'. merge_step gen calc c NG NC s = Inr s' \<and>
           getNode (mheap s') a = Inr nA' \<and> getCoefs (mheap s') nA' = Inr cA' \<and>
           take NG cA' = map2 (\<lambda>x y. x + c * y) (take NG cA) (take NG cB) \<and>
           (if hasWCoefs nA then drop NG cA' = drop NG cA
            else drop NG cA' = map (\<lambda>y. c * y) (drop NG cB) \<and> hasWCoefs nA')"
proof -
  obtain cA' where c: "combine c NG NC (hasWCoefs nA) (hasWCoefs nB) cA cB = Inr cA'"
    and t: "take NG cA' = map2 (\<lambda>x y. x + c * y) (take NG cA) (take NG cB)"
    and d: "drop NG cA' =
             (if hasWCoefs nB then (if hasWCoefs nA then map2 (\<lambda>x y. x + c * y) (drop NG cA) (drop NG cB)
                          else map (\<lambda>y. c * y) (drop NG cB))
              else drop NG cA)"
    using combine_rows[OF assms(7,8,9), of c "hasWCoefs nA" "hasWCoefs nB"] by blast
  let ?nA' = "nA\<lparr>hasWCoefs := True, squareNorm := calc cA'\<rparr>"
  let ?h2 = "h1\<lparr>nodes := (nodes h1)(a \<mapsto> ?nA'), coefmem := (coefmem h1)(coefvec nA \<mapsto> cA')\<rparr>"
  let ?s' = "\<lparr>stackAB = stk, mheap = ?h2, Tsum = (if children nA = [] then Tsum s + calc cA' else Tsum s)\<rparr>"
  have step: "merge_step gen calc c NG NC s = Inr ?s'"
    unfolding merge_step_unfold[OF assms(1,2)]
      combine_node_run[OF assms(3,4,5,6) c]
    by (simp add: bind_err_simps)
  have n: "getNode (mheap ?s') a = Inr ?nA'" by (simp add: getNode_def)
  have g: "getCoefs (mheap ?s') ?nA' = Inr cA'" by (simp add: getCoefs_def)
  show ?thesis
    using step n g t d assms(10) by (intro exI[of _ ?s'] exI[of _ ?nA'] exI[of _ cA']) auto
qed

theorem merge_combine_policy_witness:
  "stackAB \<lparr>stackAB = [(16, 32)], mheap = ex_heap False True, Tsum = 0\<rparr> = (16, 32) # [] \<and>
   descend (\<lambda>a h. Inr h) 16 32 [] (ex_heap False True) = Inr ([], ex_heap False True) \<and>
   getNode (ex_heap False True) 16 = Inr (ex_node 1000 False) \<and>
   getNode (ex_heap False True) 32 = Inr (ex_node 2000 True) \<and>
   getCoefs (ex_heap False True) (ex_node 1000 False) = Inr [1, 2, 3, 4] \<and>
   getCoefs (ex_heap False True) (ex_node 2000 True) = Inr [10, 20, 30, 40] \<and>
   (\<exists>s' nA' cA'.
      merge_step (\<lambda>a h. Inr h) ex_calc 2 2 4 \<lparr>stackAB = [(16, 32)], mheap = ex_heap False True, Tsum = 0\<rparr> = Inr s' \<and>
      getNode (mheap s') 16 = Inr nA' \<and> getCoefs (mheap s') nA' = Inr cA' \<and>
      take 2 cA' = [1 + 2 * 10, 2 + 2 * 20] \<and> drop 2 cA' = [2 * 30, 2 * 40] \<and> hasWCoefs nA')"
proof -
  let ?h = "ex_heap False True"
  let ?s = "\<lparr>stackAB = [(16, 32)], mheap = ?h, Tsum = 0\<rparr> :: (real, real) mstate"
  have h1: "stackAB ?s = (16, 32) # []" by simp
  have h2: "descend (\<lambda>a h. Inr h) 16 32 [] (mheap ?s) = Inr ([], ?h)"
    by (simp add: descend_def getNode_def ex_heap_def ex_node_def bind_err_simps)
  have h3: "getNode ?h 16 = Inr (ex_node 1000 False)" by (simp add: getNode_def ex_heap_def)
  have h4: "getNode ?h 32 = Inr (ex_node 2000 True)" by (simp add: getNode_def ex_heap_def)
  have h5: "getCoefs ?h (ex_node 1000 False) = Inr [1, 2, 3, 4]"
    by (simp add: getCoefs_def ex_heap_def ex_node_def)
  have h6: "getCoefs ?h (ex_node 2000 True) = Inr [10, 20, 30, 40]"
    by (simp add: getCoefs_def ex_heap_def ex_node_def)
  have h7: "length [1, 2, 3, 4 :: real] = 4" "length [10, 20, 30, 40 :: real] = 4" "(2::nat) \<le> 4" by simp_all
  have h8: "hasWCoefs (ex_node 1000 False) \<noteq> hasWCoefs (ex_node 2000 True)" by (simp add: ex_node_def)
  show ?thesis
    using merge_combine_policy[where calc = ex_calc and c = 2, OF h1 h2 h3 h4 h5 h6 h7 h8] h2 h3 h4 h5 h6
    by (simp add: ex_node_def)
qed

text \<open>
  Claim C9 (detail flag set in every row). Whenever an iteration of the top-down merge
  succeeds, the node of the result tree is afterwards marked as holding detail
  coefficients, whatever the two flags were before; when B holds no detail, the detail
  part of A's block is the one it had before the visit, so the flag is set although
  that part was not written.
\<close>

theorem merge_sets_detail_flag:
  assumes "stackAB s = (a, b) # rest"
      and "descend gen a b rest (mheap s) = Inr (stk, h1)"
      and "getNode h1 a = Inr nA" and "getNode h1 b = Inr nB"
      and "getCoefs h1 nA = Inr cA"
      and "merge_step gen calc c NG NC s = Inr s'"
  shows "\<exists>nA' cA'. getNode (mheap s') a = Inr nA' \<and> hasWCoefs nA' \<and>
           getCoefs (mheap s') nA' = Inr cA' \<and>
           (\<not> hasWCoefs nB \<longrightarrow> drop NG cA' = drop NG cA)"
proof -
  from assms(6) obtain ts h2 where cn: "combine_node calc c NG NC a b (Tsum s) h1 = Inr (ts, h2)"
    and s': "s' = \<lparr>stackAB = stk, mheap = h2, Tsum = ts\<rparr>"
    unfolding merge_step_unfold[OF assms(1,2)] by (auto simp: bind_err_Inr)
  from cn obtain cB where cB: "getCoefs h1 nB = Inr cB"
    using assms(3,4,5) by (auto simp: combine_node_def bind_err_Inr)
  from combine_node_result[OF cn assms(3,4,5) cB] obtain cA'
    where c: "combine c NG NC (hasWCoefs nA) (hasWCoefs nB) cA cB = Inr cA'"
      and n: "getNode h2 a = Inr (nA\<lparr>hasWCoefs := True, squareNorm := calc cA'\<rparr>)"
      and g: "getCoefs h2 (nA\<lparr>hasWCoefs := True, squareNorm := calc cA'\<rparr>) = Inr cA'"
    by blast
  have "drop NG cA' = drop NG cA" if "\<not> hasWCoefs nB"
    using c that add_range_drop[of c cB NG cA cA']
    by (auto simp: combine_def bind_err_Inr split: if_splits)
  then show ?thesis using n g s' by auto
qed

theorem merge_sets_detail_flag_witness:
  "stackAB \<lparr>stackAB = [(16, 32)], mheap = ex_heap False False, Tsum = 0\<rparr> = (16, 32) # [] \<and>
   descend (\<lambda>a h. Inr h) 16 32 [] (ex_heap False False) = Inr ([], ex_heap False False) \<and>
   getNode (ex_heap False False) 16 = Inr (ex_node 1000 False) \<and>
   getNode (ex_heap False False) 32 = Inr (ex_node 2000 False) \<and>
   getCoefs (ex_heap False False) (ex_node 1000 False) = Inr [1, 2, 3, 4] \<and>
   (\<exists>s'. merge_step (\<lambda>a h. Inr h) ex_calc 2 2 4 \<lparr>stackAB = [(16, 32)], mheap = ex_heap False False, Tsum = 0\<rparr> = Inr s' \<and>
      (\<exists>nA' cA'. getNode (mheap s') 16 = Inr nA' \<and> hasWCoefs nA' \<and>
         getCoefs (mheap s') nA' = Inr cA' \<and> drop 2 cA' = [3, 4]))"
proof -
  let ?h = "ex_heap False False"
  let ?s = "\<lparr>stackAB = [(16, 32)], mheap = ?h, Tsum = 0\<rparr> :: (real, real) mstate"
  have h1: "stackAB ?s = (16, 32) # []" by simp
  have h2: "descend (\<lambda>a h. Inr h) 16 32 [] (mheap ?s) = Inr ([], ?h)"
    by (simp add: descend_def getNode_def ex_heap_def ex_node_def bind_err_simps)
  have h3: "getNode ?h 16 = Inr (ex_node 1000 False)" by (simp add: getNode_def ex_heap_def)
  have h4: "getNode ?h 32 = Inr (ex_node 2000 False)" by (simp add: getNode_def ex_heap_def)
  have h5: "getCoefs ?h (ex_node 1000 False) = Inr [1, 2, 3, 4]"
    by (simp add: getCoefs_def ex_heap_def ex_node_def)
  have h6: "getCoefs ?h (ex_node 2000 False) = Inr [10, 20, 30, 40]"
    by (simp add: getCoefs_def ex_heap_def ex_node_def)
  have c: "combine 2 2 4 False False [1, 2, 3, 4] [10, 20, 30, 40 :: real] = Inr [21, 42, 3, 4]"
    by (simp add: combine_def add_range_def bind_err_simps upt_rec)
  obtain s' where step: "merge_step (\<lambda>a h. Inr h) ex_calc 2 2 4 ?s = Inr s'"
    unfolding merge_step_unfold[OF h1 h2]
    using combine_node_run[OF h3 h4 h5 h6, of 2 2 4 "[21, 42, 3, 4]" ex_calc 0] c
    by (simp add: bind_err_simps ex_node_def)
  show ?thesis
    using merge_sets_detail_flag[OF h1 h2 h3 h4 h5 step] step h2 h3 h4 h5
    by (auto simp: ex_node_def)
qed

lemma merge_step_norm:
  assumes "stackAB s = (a, b) # rest" "merge_step gen calc c NG NC s = Inr s1"
  shows "\<exists>nA cA. getNode (mheap s1) a = Inr nA \<and> getCoefs (mheap s1) nA = Inr cA \<and>
           squareNorm nA = calc cA \<and>
           Tsum s1 = (if children nA = [] then Tsum s + squareNorm nA else Tsum s)"
proof -
  from assms obtain stk h1 ts h2 where
    d: "descend gen a b rest (mheap s) = Inr (stk, h1)" and
    cn: "combine_node calc c NG NC a b (Tsum s) h1 = Inr (ts, h2)" and
    s1: "s1 = \<lparr>stackAB = stk, mheap = h2, Tsum = ts\<rparr>"
    by (auto simp: merge_step_def bind_err_Inr)
  from cn obtain nA nB cA cB where l: "getNode h1 a = Inr nA" "getNode h1 b = Inr nB"
    "getCoefs h1 nA = Inr cA" "getCoefs h1 nB = Inr cB"
    by (auto simp: combine_node_def bind_err_Inr)
  from combine_node_result[OF cn l] show ?thesis
    unfolding s1 by auto
qed

lemma merge_loop_visits:
  assumes "merge_loop gen calc c NG NC s = Some r"
  shows "\<forall>s'. r = Inr s' \<longrightarrow>
           (\<exists>vs. visits gen calc c NG NC s vs s' \<and> stackAB s' = [] \<and>
                 Tsum s' = foldl (+) (Tsum s) (leaf_norms vs))"
proof (rule merge_loop.raw_induct[where P = "\<lambda>gen calc c NG NC s r. \<forall>s'. r = Inr s' \<longrightarrow>
           (\<exists>vs. visits gen calc c NG NC s vs s' \<and> stackAB s' = [] \<and>
                 Tsum s' = foldl (+) (Tsum s) (leaf_norms vs))", OF _ assms], goal_cases)
  case (1 loop gen calc c NG NC s r)
  show ?case
  proof (cases "stackAB s = []")
    case True
    then have "r = Inr s" using 1(2) by simp
    then show ?thesis using True by (auto intro: visits_done simp: leaf_norms_def)
  next
    case False
    then obtain a b rest where st: "stackAB s = (a, b) # rest"
      by (cases "stackAB s") auto
    show ?thesis
    proof (intro allI impI)
      fix s' assume r: "r = Inr s'"
      from 1(2) False r obtain s1 where ms: "merge_step gen calc c NG NC s = Inr s1"
        and lp: "loop gen calc c NG NC s1 = Some (Inr s')"
        by (auto split: sum.splits)
      from 1(1)[OF lp] obtain vs where v: "visits gen calc c NG NC s1 vs s'" and e: "stackAB s' = []"
        and t: "Tsum s' = foldl (+) (Tsum s1) (leaf_norms vs)" by auto
      from merge_step_norm[OF st ms] obtain nA cA where
        n: "getNode (mheap s1) a = Inr nA" "getCoefs (mheap s1) nA = Inr cA" "squareNorm nA = calc cA"
        and ts: "Tsum s1 = (if children nA = [] then Tsum s + squareNorm nA else Tsum s)" by blast
      have "visits gen calc c NG NC s ((a, children nA = [], squareNorm nA) # vs) s'"
        by (rule visits_step[OF st ms n v])
      moreover have "Tsum s' = foldl (+) (Tsum s) (leaf_norms ((a, children nA = [], squareNorm nA) # vs))"
        using t ts by (simp add: leaf_norms_def)
      ultimately show "\<exists>vs. visits gen calc c NG NC s vs s' \<and> stackAB s' = [] \<and>
                 Tsum s' = foldl (+) (Tsum s) (leaf_norms vs)"
        using e by blast
    qed
  qed
qed

text \<open>
  Claim C6 (norm accounting of the top-down merge). Whenever SerialTreeAdd returns, its
  run is a sequence of visits in each of which the node's squared norm was recomputed
  from its block after combining, and the squared norm stored on the tree is the sum,
  starting from 0 and in the order of the visits, of the squared norms of exactly the
  visited nodes that had no children at the time of their visit.
\<close>

theorem merge_norm_accounting:
  assumes "SerialTreeAdd gen calc NG NC c rootsA rootsB h = Some (Inr (h', sq))"
  shows "\<exists>vs s'. visits gen calc c NG NC \<lparr>stackAB = rev (zip rootsA rootsB), mheap = h, Tsum = 0\<rparr> vs s' \<and>
           h' = mheap s' \<and> sq = foldl (+) 0 (leaf_norms vs)"
proof -
  let ?s0 = "\<lparr>stackAB = rev (zip rootsA rootsB), mheap = h, Tsum = 0\<rparr>"
  from assms obtain s' where l: "merge_loop gen calc c NG NC ?s0 = Some (Inr s')"
    and r: "h' = mheap s'" "sq = Tsum s'"
    by (auto simp: SerialTreeAdd_def split: if_splits option.splits sum.splits)
  from merge_loop_visits[OF l] r show ?thesis by auto
qed

lemma add_range_eval4:
  "add_range c [b0, b1, b2, b3] 0 4 [a0, a1, a2, a3] = Inr [a0 + c * b0, a1 + c * b1, a2 + c * b2, a3 + c * b3]"
  by (simp add: add_range_def upt_rec)

lemmas ex_merge_defs = merge_step_def descend_def combine_node_def getNode_def getCoefs_def ex_heap2_def
      ex_heap2a_def ex_heap2b_def ex_heap2c_def
      ex_tnode_def bind_err_simps stack_cap_def combine_def add_range_eval4 ex_calc_def Let_def

lemma ex_step_root:
  "merge_step (\<lambda>a h. Inr h) ex_calc 2 2 4 \<lparr>stackAB = [(16, 32)], mheap = ex_heap2, Tsum = 0\<rparr> =
     Inr \<lparr>stackAB = [(64, 96), (48, 80)], mheap = ex_heap2a, Tsum = 0\<rparr>"
  by (simp add: ex_merge_defs)

lemma ex_step_64:
  "merge_step (\<lambda>a h. Inr h) ex_calc 2 2 4 \<lparr>stackAB = [(64, 96), (48, 80)], mheap = ex_heap2a, Tsum = 0\<rparr> =
     Inr \<lparr>stackAB = [(48, 80)], mheap = ex_heap2b, Tsum = 28\<rparr>"
  by (simp add: ex_merge_defs)

lemma ex_step_48:
  "merge_step (\<lambda>a h. Inr h) ex_calc 2 2 4 \<lparr>stackAB = [(48, 80)], mheap = ex_heap2b, Tsum = 28\<rparr> =
     Inr \<lparr>stackAB = [], mheap = ex_heap2c, Tsum = 40\<rparr>"
  by (simp add: ex_merge_defs)

lemma ex_merge_loop:
  "merge_loop (\<lambda>a h. Inr h) ex_calc 2 2 4 \<lparr>stackAB = [(16, 32)], mheap = ex_heap2, Tsum = 0\<rparr> =
     Some (Inr \<lparr>stackAB = [], mheap = ex_heap2c, Tsum = 40\<rparr>)"
  apply (subst merge_loop.simps, simp add: ex_step_root)
  apply (subst merge_loop.simps, simp add: ex_step_64)
  apply (subst merge_loop.simps, simp add: ex_step_48)
  apply (subst merge_loop.simps, simp)
  done

theorem merge_norm_accounting_witness:
  "SerialTreeAdd (\<lambda>a h. Inr h) ex_calc 2 4 2 [16] [32] ex_heap2 = Some (Inr (ex_heap2c, 40)) \<and>
   (\<exists>vs s'. visits (\<lambda>a h. Inr h) ex_calc 2 2 4 \<lparr>stackAB = rev (zip [16] [32]), mheap = ex_heap2, Tsum = 0\<rparr> vs s' \<and>
      ex_heap2c = mheap s' \<and> (40::real) = foldl (+) 0 (leaf_norms vs))"
proof -
  have r: "SerialTreeAdd (\<lambda>a h. Inr h) ex_calc 2 4 2 [16] [32] ex_heap2 = Some (Inr (ex_heap2c, 40))"
    by (simp add: SerialTreeAdd_def stack_cap_def ex_merge_loop)
  from merge_norm_accounting[OF r] r show ?thesis by blast
qed

section \<open>Properties of the node arena and the coefficient pools\<close>

declare recede_nodes.simps [simp del]
declare recede_coeff.simps [simp del]

lemma recede_nodes_ok:
  "T \<le> int (length status) \<Longrightarrow> \<exists>T'. recede_nodes status T = Inr T'"
proof (induction status T rule: recede_nodes.induct)
  case (1 status T)
  show ?case
  proof (cases "0 < T \<and> status ! nat (T - 1) = 0")
    case True
    then have "\<exists>T'. recede_nodes status (T - 1) = Inr T'" using 1 by auto
    then show ?thesis using True 1(2) by (subst recede_nodes.simps) auto
  next
    case False
    then show ?thesis using 1(2) by (subst recede_nodes.simps) auto
  qed
qed

lemma recede_nodes_props:
  "recede_nodes status T = Inr T' \<Longrightarrow>
     T' \<le> T \<and> (\<forall>i. T' \<le> i \<and> i < T \<longrightarrow> status ! nat i = 0) \<and>
     (T' \<le> 0 \<or> status ! nat (T' - 1) \<noteq> 0)"
proof (induction status T rule: recede_nodes.induct)
  case (1 status T)
  show ?case
  proof (cases "0 < T \<and> status ! nat (T - 1) = 0")
    case True
    then have r: "recede_nodes status (T - 1) = Inr T'"
      using 1(2) by (subst (asm) recede_nodes.simps) (auto split: if_splits)
    have le: "\<not> T \<le> 0" "\<not> int (length status) < T"
      using True 1(2) by (subst (asm) recede_nodes.simps, auto split: if_splits)+
    from 1(1)[OF le(1) le(2) _ r] True
    have ih: "T' \<le> T - 1" "\<forall>i. T' \<le> i \<and> i < T - 1 \<longrightarrow> status ! nat i = 0"
      "T' \<le> 0 \<or> status ! nat (T' - 1) \<noteq> 0" by auto
    have "status ! nat i = 0" if "T' \<le> i" "i < T" for i
    proof (cases "i = T - 1")
      case True
      then show ?thesis using \<open>0 < T \<and> status ! nat (T - 1) = 0\<close> by simp
    next
      case False
      then show ?thesis using ih(2) that by auto
    qed
    then show ?thesis using ih by auto
  next
    case False
    then have "T' = T" using 1(2) by (subst (asm) recede_nodes.simps) (auto split: if_splits)
    then show ?thesis using False by auto
  qed
qed

lemma recede_nodes_stop:
  "T \<le> 0 \<or> (T \<le> int (length status) \<and> status ! nat (T - 1) \<noteq> 0) \<Longrightarrow> recede_nodes status T = Inr T"
  by (subst recede_nodes.simps) auto

lemma recede_nodes_step:
  "0 < T \<Longrightarrow> T \<le> int (length status) \<Longrightarrow> status ! nat (T - 1) = 0 \<Longrightarrow>
   recede_nodes status T = recede_nodes status (T - 1)"
  by (subst recede_nodes.simps) auto

lemma allocNodes_fatal:
  "maxNodes st < nNodes st + nAlloc \<Longrightarrow> allocNodes nAlloc st = Inl Fatal_maxNodes"
  by (simp add: allocNodes_def Let_def)

lemma allocNodes_one:
  assumes "nNodes st + 1 \<le> maxNodes st" "0 \<le> nNodes st"
      and "length (NodeStackStatus st) = nat (maxNodes st) + 1"
  shows "allocNodes 1 st =
     Inr (lastNode st,
          st\<lparr>nNodes := nNodes st + 1,
             lastNode := lastNode st + sizeNodeMeta st,
             NodeRankAt := (NodeRankAt st)(lastNode st \<mapsto> nNodes st),
             printed := (if NodeStackStatus st ! nat (nNodes st) \<noteq> 0
                         then printed st @ [M_NodeStackStatus_not_available (nNodes st) (NodeStackStatus st ! nat (nNodes st))]
                         else printed st),
             NodeStackStatus := (NodeStackStatus st)[nat (nNodes st) := 1]\<rparr>)"
  using assms
  by (simp add: allocNodes_def Let_def mark_node_def bind_err_simps)

lemma DeAllocNodes_nontop:
  assumes "0 \<le> nNodes st" "0 \<le> r" "r < int (length (NodeStackStatus st))" "r \<noteq> nNodes st - 1"
  shows "DeAllocNodes r st = Inr (st\<lparr>NodeStackStatus := (NodeStackStatus st)[nat r := 0]\<rparr>)"
  using assms by (simp add: DeAllocNodes_def Let_def)

lemma DeAllocNodes_top:
  assumes "0 \<le> nNodes st" "0 \<le> r" "r < int (length (NodeStackStatus st))" "r = nNodes st - 1"
  shows "\<exists>T. recede_nodes ((NodeStackStatus st)[nat r := 0]) r = Inr T \<and>
             DeAllocNodes r st = Inr (st\<lparr>NodeStackStatus := (NodeStackStatus st)[nat r := 0], nNodes := T\<rparr>)"
proof -
  let ?s = "(NodeStackStatus st)[nat r := 0]"
  obtain T where T: "recede_nodes ?s r = Inr T"
    using recede_nodes_ok[of r ?s] assms by auto
  have "recede_nodes ?s (nNodes st) = recede_nodes ?s r"
    using recede_nodes_step[of "nNodes st" ?s] assms by simp
  then show ?thesis using T assms by (simp add: DeAllocNodes_def Let_def bind_err_simps)
qed

lemma recede_nodes_nonneg: "recede_nodes status T = Inr T' \<Longrightarrow> 0 \<le> T \<Longrightarrow> 0 \<le> T'"
proof (induction status T rule: recede_nodes.induct)
  case (1 status T)
  then show ?case
    by (subst (asm) (2) recede_nodes.simps) (auto split: if_splits)
qed

lemma release_top_effect:
  assumes "0 \<le> nNodes st" "nNodes st \<le> int (length (NodeStackStatus st))" "0 \<le> r" "r = nNodes st - 1"
  shows "\<exists>st'. DeAllocNodes r st = Inr st' \<and>
           NodeStackStatus st' = (NodeStackStatus st)[nat r := 0] \<and>
           maxNodes st' = maxNodes st \<and>
           0 \<le> nNodes st' \<and> nNodes st' \<le> r \<and>
           (\<forall>i. nNodes st' \<le> i \<and> i < nNodes st \<longrightarrow> NodeStackStatus st' ! nat i = 0) \<and>
           (nNodes st' = 0 \<or> NodeStackStatus st' ! nat (nNodes st' - 1) \<noteq> 0)"
proof -
  let ?s = "(NodeStackStatus st)[nat r := 0]"
  have rl: "r < int (length (NodeStackStatus st))" using assms by simp
  from DeAllocNodes_top[OF assms(1,3) rl assms(4)] obtain T where
    T: "recede_nodes ?s r = Inr T" and
    d: "DeAllocNodes r st = Inr (st\<lparr>NodeStackStatus := ?s, nNodes := T\<rparr>)" by blast
  from recede_nodes_props[OF T] recede_nodes_nonneg[OF T assms(3)]
  have p: "T \<le> r" "\<forall>i. T \<le> i \<and> i < r \<longrightarrow> ?s ! nat i = 0" "T \<le> 0 \<or> ?s ! nat (T - 1) \<noteq> 0" "0 \<le> T"
    by auto
  have "?s ! nat i = 0" if "T \<le> i" "i < nNodes st" for i
  proof (cases "i = r")
    case True
    then show ?thesis using rl assms(3) by simp
  next
    case False
    then show ?thesis using p(2) that assms(4) by auto
  qed
  then show ?thesis using d p by auto
qed

lemma holes_card: "holes st = card {i. i < nat (nNodes st) \<and> NodeStackStatus st ! i = 0}"
proof -
  have "{i. i < nat (nNodes st) \<and> NodeStackStatus st ! ([0..<nat (nNodes st)] ! i) = 0} =
        {i. i < nat (nNodes st) \<and> NodeStackStatus st ! i = 0}"
    by auto
  then show ?thesis by (simp add: holes_def length_filter_conv_card)
qed

lemma holes_release_step:
  assumes "DeAllocNodes r st = Inr st'"
  shows "holes st' \<le> holes st + (if r = nNodes st - 1 then 0 else 1)"
proof (cases "nNodes st < 0")
  case True
  then have "nNodes st' \<le> 0"
    using assms
    by (auto simp: DeAllocNodes_def Let_def bind_err_Inr split: if_splits dest!: recede_nodes_props)
  then show ?thesis by (simp add: holes_def)
next
  case False
  then have n0: "0 \<le> nNodes st" by simp
  from assms have r: "0 \<le> r" "r < int (length (NodeStackStatus st))"
    using False by (auto simp: DeAllocNodes_def Let_def split: if_splits)
  show ?thesis
  proof (cases "r = nNodes st - 1")
    case True
    have nl: "nNodes st \<le> int (length (NodeStackStatus st))" using True r by simp
    from release_top_effect[OF n0 nl r(1) True] assms
    have s: "NodeStackStatus st' = (NodeStackStatus st)[nat r := 0]" and le: "nNodes st' \<le> r" "0 \<le> nNodes st'"
      by auto
    have "{i. i < nat (nNodes st') \<and> NodeStackStatus st' ! i = 0} \<subseteq>
          {i. i < nat (nNodes st) \<and> NodeStackStatus st ! i = 0}"
      using s le True by (auto simp: nth_list_update)
    then have "holes st' \<le> holes st"
      unfolding holes_card by (intro card_mono) auto
    then show ?thesis by simp
  next
    case False
    from DeAllocNodes_nontop[OF n0 r False] assms
    have st': "st' = st\<lparr>NodeStackStatus := (NodeStackStatus st)[nat r := 0]\<rparr>" by simp
    have "{i. i < nat (nNodes st') \<and> NodeStackStatus st' ! i = 0} \<subseteq>
          insert (nat r) {i. i < nat (nNodes st) \<and> NodeStackStatus st ! i = 0}"
      unfolding st' by (auto simp: nth_list_update split: if_splits)
    then have "holes st' \<le> card (insert (nat r) {i. i < nat (nNodes st) \<and> NodeStackStatus st ! i = 0})"
      unfolding holes_card by (intro card_mono) auto
    also have "\<dots> \<le> holes st + 1"
      unfolding holes_card by (simp add: card_insert_if)
    finally show ?thesis using False by simp
  qed
qed

lemma holes_release_all:
  "release_all rs st = Inr st' \<Longrightarrow> holes st' \<le> holes st + nontop_releases rs st"
proof (induction rs arbitrary: st)
  case Nil
  then show ?case by simp
next
  case (Cons r rs)
  from Cons.prems obtain st1 where d: "DeAllocNodes r st = Inr st1" and rest: "release_all rs st1 = Inr st'"
    by (auto simp: bind_err_Inr)
  from Cons.IH[OF rest] holes_release_step[OF d] d show ?case by simp
qed

lemma release_all_append:
  "release_all (xs @ ys) st = bind_err (release_all xs st) (release_all ys)"
  by (induction xs arbitrary: st) (auto simp: bind_err_def split: sum.splits)

lemma rev_ranks_Suc:
  "map (\<lambda>i. n + int i) (rev [0..<Suc N]) = map (\<lambda>i. (n + 1) + int i) (rev [0..<N]) @ [n]"
proof -
  have "[0..<Suc N] = 0 # map Suc [0..<N]"
    by (simp add: upt_conv_Cons map_Suc_upt del: upt_Suc)
  then have "map (\<lambda>i. n + int i) (rev [0..<Suc N]) = map (\<lambda>i. n + int i) (rev (map Suc [0..<N])) @ [n]"
    by (simp del: upt_Suc)
  also have "map (\<lambda>i. n + int i) (rev (map Suc [0..<N])) = map (\<lambda>i. (n + 1) + int i) (rev [0..<N])"
    by (simp add: rev_map del: upt_Suc)
  finally show ?thesis .
qed

lemma alloc_release_roundtrip:
  assumes "node_pool_ok st" "nNodes st + int N \<le> maxNodes st"
  shows "\<exists>st1 st2. alloc_singles N st = Inr st1 \<and> nNodes st1 = nNodes st + int N \<and>
           release_all (map (\<lambda>i. nNodes st + int i) (rev [0..<N])) st1 = Inr st2 \<and>
           nNodes st2 = nNodes st \<and> node_pool_ok st2 \<and> maxNodes st2 = maxNodes st \<and>
           (\<forall>i < nat (nNodes st). NodeStackStatus st2 ! i = NodeStackStatus st ! i)"
  using assms
proof (induction N arbitrary: st)
  case 0
  then show ?case by simp
next
  case (Suc N)
  let ?n = "nNodes st"
  let ?st' = "st\<lparr>nNodes := nNodes st + 1,
             lastNode := lastNode st + sizeNodeMeta st,
             NodeRankAt := (NodeRankAt st)(lastNode st \<mapsto> nNodes st),
             printed := (if NodeStackStatus st ! nat (nNodes st) \<noteq> 0
                         then printed st @ [M_NodeStackStatus_not_available (nNodes st) (NodeStackStatus st ! nat (nNodes st))]
                         else printed st),
             NodeStackStatus := (NodeStackStatus st)[nat (nNodes st) := 1]\<rparr>"
  have ok: "0 \<le> maxNodes st" "length (NodeStackStatus st) = nat (maxNodes st) + 1" "0 \<le> ?n"
    "?n = 0 \<or> NodeStackStatus st ! nat (?n - 1) \<noteq> 0"
    using Suc.prems(1) by (auto simp: node_pool_ok_def)
  have a1: "allocNodes 1 st = Inr (lastNode st, ?st')"
    using allocNodes_one[of st] ok Suc.prems(2) by simp
  have ok': "node_pool_ok ?st'" using ok Suc.prems(2) by (auto simp: node_pool_ok_def)
  have le': "nNodes ?st' + int N \<le> maxNodes ?st'" using Suc.prems(2) by simp
  have nn: "nNodes ?st' = ?n + 1" "maxNodes ?st' = maxNodes st"
    "NodeStackStatus ?st' = (NodeStackStatus st)[nat ?n := 1]" by simp_all
  from Suc.IH[OF ok' le'] obtain st1 st2 where
    al: "alloc_singles N ?st' = Inr st1" and n1': "nNodes st1 = nNodes ?st' + int N" and
    rl': "release_all (map (\<lambda>i. nNodes ?st' + int i) (rev [0..<N])) st1 = Inr st2" and
    n2': "nNodes st2 = nNodes ?st'" and ok2: "node_pool_ok st2" and m2': "maxNodes st2 = maxNodes ?st'" and
    fr': "\<forall>i < nat (nNodes ?st'). NodeStackStatus st2 ! i = NodeStackStatus ?st' ! i"
    by blast
  have n1: "nNodes st1 = ?n + 1 + int N" using n1' unfolding nn .
  have rl: "release_all (map (\<lambda>i. (?n + 1) + int i) (rev [0..<N])) st1 = Inr st2" using rl' unfolding nn .
  have n2: "nNodes st2 = ?n + 1" using n2' unfolding nn .
  have m2: "maxNodes st2 = maxNodes st" using m2' unfolding nn .
  have fr: "\<forall>i < nat (?n + 1). NodeStackStatus st2 ! i = (NodeStackStatus st)[nat ?n := 1] ! i"
    using fr' unfolding nn .
  have len2: "length (NodeStackStatus st2) = nat (maxNodes st) + 1"
    using ok2 m2 by (simp add: node_pool_ok_def)
  have "\<exists>st3. DeAllocNodes ?n st2 = Inr st3 \<and>
           NodeStackStatus st3 = (NodeStackStatus st2)[nat ?n := 0] \<and>
           maxNodes st3 = maxNodes st2 \<and>
           0 \<le> nNodes st3 \<and> nNodes st3 \<le> ?n \<and>
           (\<forall>i. nNodes st3 \<le> i \<and> i < nNodes st2 \<longrightarrow> NodeStackStatus st3 ! nat i = 0) \<and>
           (nNodes st3 = 0 \<or> NodeStackStatus st3 ! nat (nNodes st3 - 1) \<noteq> 0)"
  proof -
    have h: "0 \<le> nNodes st2" "nNodes st2 \<le> int (length (NodeStackStatus st2))" "0 \<le> ?n" "?n = nNodes st2 - 1"
      using n2 ok len2 Suc.prems(2) by auto
    show ?thesis using release_top_effect[OF h] by simp
  qed
  then obtain st3 where d: "DeAllocNodes ?n st2 = Inr st3"
    and s3: "NodeStackStatus st3 = (NodeStackStatus st2)[nat ?n := 0]"
    and m3: "maxNodes st3 = maxNodes st2"
    and b3: "0 \<le> nNodes st3" "nNodes st3 \<le> ?n"
    and f3: "\<forall>i. nNodes st3 \<le> i \<and> i < nNodes st2 \<longrightarrow> NodeStackStatus st3 ! nat i = 0"
    and p3: "nNodes st3 = 0 \<or> NodeStackStatus st3 ! nat (nNodes st3 - 1) \<noteq> 0"
    by blast
  have below: "NodeStackStatus st3 ! i = NodeStackStatus st ! i" if "i < nat ?n" for i
    using that fr s3 ok by (auto simp: nth_list_update)
  have n3: "nNodes st3 = ?n"
  proof (rule ccontr)
    assume "nNodes st3 \<noteq> ?n"
    then have lt: "nNodes st3 < ?n" using b3 by simp
    then have "NodeStackStatus st3 ! nat (?n - 1) = 0" using f3 n2 by simp
    moreover have "NodeStackStatus st3 ! nat (?n - 1) = NodeStackStatus st ! nat (?n - 1)"
      using below[of "nat (?n - 1)"] lt b3 by simp
    ultimately show False using ok(4) lt b3 by auto
  qed
  have ok3: "node_pool_ok st3"
    using n3 m3 m2 s3 len2 ok p3 Suc.prems(2) by (auto simp: node_pool_ok_def)
  have "alloc_singles (Suc N) st = Inr st1" using a1 al by (simp add: bind_err_simps)
  moreover have "release_all (map (\<lambda>i. ?n + int i) (rev [0..<Suc N])) st1 = Inr st3"
    unfolding rev_ranks_Suc release_all_append using rl d by (simp add: bind_err_simps)
  ultimately show ?case using n1 n3 ok3 m3 m2 below by auto
qed

lemma recede_coeff_props:
  "recede_coeff status T = Inr T' \<Longrightarrow>
     0 \<le> T' \<and> T' \<le> T \<and> (T' \<le> 0 \<or> status ! nat T' \<noteq> 0)"
proof (induction status T rule: recede_coeff.induct)
  case (1 status T)
  show ?case
  proof (cases "status ! nat T = 0 \<and> T > 0")
    case True
    then have r: "recede_coeff status (T - 1) = Inr T'" and rg: "\<not> (T < 0 \<or> int (length status) \<le> T)"
      using 1(2) by (subst (asm) recede_coeff.simps, auto split: if_splits)+
    from 1(1)[OF rg True r] show ?thesis by auto
  next
    case False
    then have "T' = T \<and> 0 \<le> T" using 1(2) by (subst (asm) recede_coeff.simps) (auto split: if_splits)
    then show ?thesis using False by auto
  qed
qed


lemma mark_node_frame:
  assumes "mark_node old k s = Inr s'"
  shows "nNodes s' = nNodes s" "maxNodes s' = maxNodes s"
    "0 \<le> k" "k < int (length (NodeStackStatus s))"
    "NodeStackStatus s' = (NodeStackStatus s)[nat k := 1]"
    "nNodesCoeff s' = nNodesCoeff s" "maxNodesCoeff s' = maxNodesCoeff s"
    "CoeffStackStatus s' = CoeffStackStatus s" "CoeffStack s' = CoeffStack s"
    "firstNodeCoeff s' = firstNodeCoeff s" "sizeNodeCoeff s' = sizeNodeCoeff s" "dimD s' = dimD s"
    "GenCoeffStackStatus s' = GenCoeffStackStatus s"
  using assms by (auto simp: mark_node_def Let_def split: if_splits)

lemma for_err_mark_frame:
  assumes "for_err (\<lambda>i s. mark_node old (nNodes s + int i - 1) s) is s = Inr s'"
  shows "nNodes s' = nNodes s \<and> maxNodes s' = maxNodes s \<and>
    length (NodeStackStatus s') = length (NodeStackStatus s) \<and>
    (\<forall>j. j < length (NodeStackStatus s) \<and> NodeStackStatus s ! j \<noteq> 0 \<longrightarrow> NodeStackStatus s' ! j \<noteq> 0) \<and>
    nNodesCoeff s' = nNodesCoeff s \<and> maxNodesCoeff s' = maxNodesCoeff s \<and>
    CoeffStackStatus s' = CoeffStackStatus s \<and> CoeffStack s' = CoeffStack s \<and>
    firstNodeCoeff s' = firstNodeCoeff s \<and> sizeNodeCoeff s' = sizeNodeCoeff s \<and> dimD s' = dimD s \<and>
    GenCoeffStackStatus s' = GenCoeffStackStatus s"
  using assms
proof (induction "is" arbitrary: s)
  case Nil
  then show ?case by simp
next
  case (Cons i "is")
  from Cons.prems obtain s1 where m: "mark_node old (nNodes s + int i - 1) s = Inr s1"
    and r: "for_err (\<lambda>i s. mark_node old (nNodes s + int i - 1) s) is s1 = Inr s'"
    by (auto simp: bind_err_Inr)
  note f = mark_node_frame[OF m]
  have keep: "NodeStackStatus s1 ! j \<noteq> 0" if "j < length (NodeStackStatus s)" "NodeStackStatus s ! j \<noteq> 0" for j
    using that f(3,4) unfolding f(5) by (cases "j = nat (nNodes s + int i - 1)") auto
  have len: "length (NodeStackStatus s1) = length (NodeStackStatus s)" unfolding f(5) by simp
  from Cons.IH[OF r] keep len show ?case
    unfolding f(1,2,6-13) by auto
qed

lemma allocNodes_inv:
  assumes "allocNodes (int n) st = Inr (p, st')"
  shows "frame_const st st'" "frame_coeff st st'" "node_pool_ok st \<Longrightarrow> node_pool_ok st'"
proof -
  let ?st1 = "st\<lparr>nNodes := nNodes st + int n\<rparr>"
  let ?st2 = "?st1\<lparr>lastNode := lastNode ?st1 + int n * sizeNodeMeta ?st1\<rparr>"
  from assms have le: "nNodes st + int n \<le> maxNodes st"
    and f: "for_err (\<lambda>i s. mark_node (lastNode st) (nNodes s + int i - 1) s) [0..<n] ?st2 = Inr st'"
    by (auto simp: allocNodes_def Let_def bind_err_Inr split: if_splits)
  note fr = for_err_mark_frame[OF f]
  show "frame_const st st'" "frame_coeff st st'"
    using fr by (simp_all add: frame_const_def frame_coeff_def)
  show "node_pool_ok st'" if ok: "node_pool_ok st"
  proof (cases n)
    case 0
    then have "st' = ?st2" using f by simp
    then show ?thesis using ok 0 by (simp add: node_pool_ok_def)
  next
    case (Suc m)
    then have "[0..<n] = 0 # [1..<n]" by (simp add: upt_conv_Cons del: upt_Suc)
    with f obtain s1 where m1: "mark_node (lastNode st) (nNodes ?st2 + int 0 - 1) ?st2 = Inr s1"
      and r: "for_err (\<lambda>i s. mark_node (lastNode st) (nNodes s + int i - 1) s) [1..<n] s1 = Inr st'"
      by (auto simp: bind_err_Inr)
    note f1 = mark_node_frame[OF m1]
    note f2 = for_err_mark_frame[OF r]
    have top: "NodeStackStatus s1 ! nat (nNodes st + int n - 1) \<noteq> 0"
      using f1(3,4) unfolding f1(5) by simp
    have "NodeStackStatus st' ! nat (nNodes st + int n - 1) \<noteq> 0"
      using f2 top f1(3,4) unfolding f1(5) by auto
    then show ?thesis using ok le fr Suc by (auto simp: node_pool_ok_def)
  qed
qed

lemma allocGenNodes_eq: "allocGenNodes n st = allocNodes n st"
  by (simp add: allocGenNodes_def allocNodes_def)

lemma DeAllocNodes_inv:
  assumes "DeAllocNodes r st = Inr st'"
  shows "frame_const st st'" "frame_coeff st st'" "node_pool_ok st \<Longrightarrow> node_pool_ok st'"
proof -
  show "frame_const st st'" "frame_coeff st st'"
    using assms
    by (auto simp: DeAllocNodes_def Let_def bind_err_Inr frame_const_def frame_coeff_def split: if_splits)
  show "node_pool_ok st'" if ok: "node_pool_ok st"
  proof -
    have n0: "0 \<le> nNodes st" and len: "length (NodeStackStatus st) = nat (maxNodes st) + 1"
      and le: "nNodes st \<le> maxNodes st" and m0: "0 \<le> maxNodes st"
      and tp: "nNodes st = 0 \<or> NodeStackStatus st ! nat (nNodes st - 1) \<noteq> 0"
      using ok by (auto simp: node_pool_ok_def)
    from assms n0 have r: "0 \<le> r" "r < int (length (NodeStackStatus st))"
      by (auto simp: DeAllocNodes_def Let_def split: if_splits)
    show ?thesis
    proof (cases "r = nNodes st - 1")
      case True
      have nl: "nNodes st \<le> int (length (NodeStackStatus st))" using le len m0 by simp
      from release_top_effect[OF n0 nl r(1) True] assms
      show ?thesis using len le m0 True by (auto simp: node_pool_ok_def)
    next
      case False
      from DeAllocNodes_nontop[OF n0 r False] assms
      have "st' = st\<lparr>NodeStackStatus := (NodeStackStatus st)[nat r := 0]\<rparr>" by simp
      then show ?thesis using ok False r n0 by (auto simp: node_pool_ok_def nth_list_update)
    qed
  qed
qed

lemma allocCoeff_inv:
  assumes "allocCoeff k st = Inr (p, st')"
  shows "frame_const st st'" "frame_nodes st st'" "coeff_pool_ok st \<Longrightarrow> coeff_pool_ok st'"
  using assms
  by (auto simp: allocCoeff_def Let_def frame_const_def frame_nodes_def coeff_pool_ok_def nth_list_update
      split: if_splits)

lemma DeAllocCoeff_inv:
  assumes "DeAllocCoeff ix st = Inr st'"
  shows "frame_const st st'" "frame_nodes st st'" "coeff_pool_ok st \<Longrightarrow> coeff_pool_ok st'"
proof -
  show "frame_const st st'" "frame_nodes st st'"
    using assms
    by (auto simp: DeAllocCoeff_def Let_def bind_err_Inr frame_const_def frame_nodes_def split: if_splits)
  show "coeff_pool_ok st'" if ok: "coeff_pool_ok st"
  proof (cases "ix = nNodesCoeff st")
    case True
    from assms True obtain T where
      T: "recede_coeff ((CoeffStackStatus st)[nat ix := 0]) ix = Inr T"
      and s: "CoeffStackStatus st' = (CoeffStackStatus st)[nat ix := 0]" "nNodesCoeff st' = T"
        "maxNodesCoeff st' = maxNodesCoeff st"
      by (auto simp: DeAllocCoeff_def Let_def bind_err_Inr split: if_splits)
    from recede_coeff_props[OF T] show ?thesis
      using ok s True by (auto simp: coeff_pool_ok_def)
  next
    case False
    with assms have s: "CoeffStackStatus st' = (CoeffStackStatus st)[nat ix := 0]" "nNodesCoeff st' = nNodesCoeff st"
        "maxNodesCoeff st' = maxNodesCoeff st" and r: "0 \<le> ix"
      by (auto simp: DeAllocCoeff_def Let_def bind_err_Inr split: if_splits)
    show ?thesis using ok s False r by (auto simp: coeff_pool_ok_def nth_list_update)
  qed
qed

lemma allocGenCoeff_inv:
  assumes "allocGenCoeff k st = Inr (p, st')"
  shows "frame_const st st'" "frame_nodes st st'" "frame_coeff st st'"
  using assms
  by (auto simp: allocGenCoeff_def Let_def frame_const_def frame_nodes_def frame_coeff_def split: if_splits)

lemma DeAllocGenCoeff_inv:
  assumes "DeAllocGenCoeff ix st = Inr st'"
  shows "frame_const st st'" "frame_nodes st st'" "frame_coeff st st'"
  using assms
  by (auto simp: DeAllocGenCoeff_def Let_def bind_err_Inr frame_const_def frame_nodes_def frame_coeff_def
      split: if_splits)

lemma frame_nodes_ok: "frame_nodes st st' \<Longrightarrow> frame_const st st' \<Longrightarrow> node_pool_ok st \<Longrightarrow> node_pool_ok st'"
  by (simp add: frame_nodes_def frame_const_def node_pool_ok_def)

lemma frame_coeff_ok: "frame_coeff st st' \<Longrightarrow> frame_const st st' \<Longrightarrow> coeff_pool_ok st \<Longrightarrow> coeff_pool_ok st'"
  by (simp add: frame_coeff_def frame_const_def coeff_pool_ok_def)

lemma pool_step_inv:
  assumes "pool_step op st = Inr st'"
  shows "frame_const st st'"
    and "node_pool_ok st \<Longrightarrow> node_pool_ok st'"
    and "coeff_pool_ok st \<Longrightarrow> coeff_pool_ok st'"
proof -
  have "frame_const st st' \<and> (node_pool_ok st \<longrightarrow> node_pool_ok st') \<and> (coeff_pool_ok st \<longrightarrow> coeff_pool_ok st')"
  proof (cases op)
    case (AllocNodes n)
    with assms obtain p where "allocNodes (int n) st = Inr (p, st')" by (auto simp: bind_err_Inr)
    from allocNodes_inv[OF this] show ?thesis using frame_coeff_ok by blast
  next
    case (AllocGenNodes n)
    with assms obtain p where "allocNodes (int n) st = Inr (p, st')"
      by (auto simp: bind_err_Inr allocGenNodes_eq)
    from allocNodes_inv[OF this] show ?thesis using frame_coeff_ok by blast
  next
    case (DeAllocNodesOp r)
    with assms have "DeAllocNodes r st = Inr st'" by simp
    from DeAllocNodes_inv[OF this] show ?thesis using frame_coeff_ok by blast
  next
    case AllocCoeff
    with assms obtain p where "allocCoeff (2 ^ dimD st) st = Inr (p, st')" by (auto simp: bind_err_Inr)
    from allocCoeff_inv[OF this] show ?thesis using frame_nodes_ok by blast
  next
    case (DeAllocCoeffOp i)
    with assms have "DeAllocCoeff i st = Inr st'" by simp
    from DeAllocCoeff_inv[OF this] show ?thesis using frame_nodes_ok by blast
  next
    case AllocGenCoeff
    with assms obtain p where "allocGenCoeff (2 ^ dimD st) st = Inr (p, st')" by (auto simp: bind_err_Inr)
    from allocGenCoeff_inv[OF this] show ?thesis using frame_nodes_ok frame_coeff_ok by blast
  next
    case (DeAllocGenCoeffOp i)
    with assms have "DeAllocGenCoeff i st = Inr st'" by simp
    from DeAllocGenCoeff_inv[OF this] show ?thesis using frame_nodes_ok frame_coeff_ok by blast
  qed
  then show "frame_const st st'" "node_pool_ok st \<Longrightarrow> node_pool_ok st'" "coeff_pool_ok st \<Longrightarrow> coeff_pool_ok st'"
    by auto
qed

lemma frame_const_trans: "frame_const a b \<Longrightarrow> frame_const b c \<Longrightarrow> frame_const a c"
  by (simp add: frame_const_def)

lemma pool_run_inv:
  assumes "pool_run ops st = Inr st'"
  shows "frame_const st st' \<and> (node_pool_ok st \<longrightarrow> node_pool_ok st') \<and> (coeff_pool_ok st \<longrightarrow> coeff_pool_ok st')"
  using assms
proof (induction ops arbitrary: st)
  case Nil
  then show ?case by (simp add: frame_const_def)
next
  case (Cons op ops)
  from Cons.prems obtain s1 where a: "pool_step op st = Inr s1" and b: "pool_run ops s1 = Inr st'"
    by (auto simp: bind_err_Inr)
  from pool_step_inv[OF a] Cons.IH[OF b] show ?case
    using frame_const_trans by blast
qed

lemma ctor_ok:
  assumes "0 \<le> max_nodes"
  shows "node_pool_ok (SerialTree_ctor D order szP szF sdata gendata max_nodes)"
    and "coeff_pool_ok (SerialTree_ctor D order szP szF sdata gendata max_nodes)"
  using assms by (simp_all add: SerialTree_ctor_def Let_def node_pool_ok_def coeff_pool_ok_def)

lemma ex_pool_explicit:
  "ex_pool = \<lparr>dimD = 1, nNodes = 0, maxNodes = 4, firstNode = 4304, lastNode = 4304,
     NodeStackStatus = [0, 0, 0, 0, -1], NodeRankAt = Map.empty,
     nNodesCoeff = -1, maxNodesCoeff = 4, CoeffStack = [4752, 4784, 4816, 4848],
     CoeffStackStatus = [0, 0, 0, 0, -1], firstNodeCoeff = 4752, lastNodeCoeff = 4752,
     nGenNodesCoeff = -1, maxGenNodesCoeff = 4, GenCoeffStack = [65536, 65568, 65600, 65632],
     GenCoeffStackStatus = [0, 0, 0, 0, -1], lastGenNodeCoeff = 65536,
     sizeTreeMeta = 208, sizeNodeMeta = 112, sizeNodeCoeff = 32, sizeGenNodeCoeff = 32,
     sizeNode = 144, SData = 4096, GenCoeffArray = 65536, printed = []\<rparr>"
  by (simp add: ex_pool_def SerialTree_ctor_def Let_def upt_rec eval_nat_numeral)

lemma ex_alloc3: "pool_run [AllocNodes 1, AllocNodes 1, AllocNodes 1] ex_pool = Inr ex_pool3"
  by (simp add: ex_pool3_def ex_pool_explicit allocNodes_def mark_node_def Let_def bind_err_simps)












lemma reachable_ok:
  assumes "0 \<le> max_nodes"
      and "pool_run ops (SerialTree_ctor D order szP szF sdata gendata max_nodes) = Inr st"
  shows "node_pool_ok st" "coeff_pool_ok st"
    "frame_const (SerialTree_ctor D order szP szF sdata gendata max_nodes) st"
  using pool_run_inv[OF assms(2)] ctor_ok[OF assms(1)] by auto

text \<open>
  Claim C3 (allocation of \<open>count\<close> node slots), at \<open>count = 2\<close> on the fresh pool of four
  slots: the call succeeds and the node count becomes 2, but the slots marked occupied
  are 1 and 2, not the new slots 0 and 1, and the only rank written is 2, into the
  first of the two slots; the second slot gets no rank.
\<close>

theorem allocNodes_two_slots:
  "\<exists>st'. allocNodes 2 ex_pool = Inr (4304, st') \<and>
          nNodes st' = 2 \<and> NodeStackStatus st' = [0, 1, 1, 0, -1] \<and>
          NodeRankAt st' = [4304 \<mapsto> 2] \<and> lastNode st' = 4304 + 2 * 112"
  by (simp add: ex_pool_def allocNodes_def SerialTree_ctor_def Let_def mark_node_def bind_err_simps
      upt_rec numeral_2_eq_2 eval_nat_numeral)















text \<open>
  Claim C4 (stack discipline), as amended. In every state reached from the
  constructor: releasing the slot at the top (rank \<^verbatim>\<open>nNodes-1\<close>) frees it and moves the
  top down past all contiguous free slots below it; releasing any other slot only
  sets its status to free and leaves the top where it is; allocating \<open>N\<close> slots one at a
  time and releasing them in reverse order brings the top back to its initial value;
  and after any sequence of releases the number of holes has grown by at most the
  number of releases that were not top releases (a top release removes the holes the
  top moves past).
\<close>

theorem stack_discipline:
  assumes "0 \<le> max_nodes"
      and "pool_run ops (SerialTree_ctor D order szP szF sdata gendata max_nodes) = Inr st"
  shows "(0 \<le> r \<and> r = nNodes st - 1 \<longrightarrow>
            (\<exists>st'. DeAllocNodes r st = Inr st' \<and>
               NodeStackStatus st' = (NodeStackStatus st)[nat r := 0] \<and> nNodes st' \<le> r \<and>
               (\<forall>i. nNodes st' \<le> i \<and> i < nNodes st \<longrightarrow> NodeStackStatus st' ! nat i = 0) \<and>
               (nNodes st' = 0 \<or> NodeStackStatus st' ! nat (nNodes st' - 1) \<noteq> 0))) \<and>
         (0 \<le> q \<and> q \<le> max_nodes \<and> q \<noteq> nNodes st - 1 \<longrightarrow>
            DeAllocNodes q st = Inr (st\<lparr>NodeStackStatus := (NodeStackStatus st)[nat q := 0]\<rparr>)) \<and>
         (nNodes st + int N \<le> max_nodes \<longrightarrow>
            (\<exists>st1 st2. alloc_singles N st = Inr st1 \<and> nNodes st1 = nNodes st + int N \<and>
               release_all (map (\<lambda>i. nNodes st + int i) (rev [0..<N])) st1 = Inr st2 \<and>
               nNodes st2 = nNodes st)) \<and>
         (\<forall>st_end. release_all rs st = Inr st_end \<longrightarrow>
            holes st_end \<le> holes st + nontop_releases rs st)"
proof -
  note rc = reachable_ok[OF assms]
  have m: "maxNodes st = max_nodes"
    using rc(3) by (simp add: frame_const_def SerialTree_ctor_def Let_def)
  have ok: "0 \<le> nNodes st" "length (NodeStackStatus st) = nat max_nodes + 1" "nNodes st \<le> max_nodes"
    using rc(1) m by (auto simp: node_pool_ok_def)
  have a: "\<exists>st'. DeAllocNodes r st = Inr st' \<and>
               NodeStackStatus st' = (NodeStackStatus st)[nat r := 0] \<and> nNodes st' \<le> r \<and>
               (\<forall>i. nNodes st' \<le> i \<and> i < nNodes st \<longrightarrow> NodeStackStatus st' ! nat i = 0) \<and>
               (nNodes st' = 0 \<or> NodeStackStatus st' ! nat (nNodes st' - 1) \<noteq> 0)"
    if "0 \<le> r" "r = nNodes st - 1"
  proof -
    have nl: "nNodes st \<le> int (length (NodeStackStatus st))" using ok assms(1) by simp
    from release_top_effect[OF ok(1) nl that] show ?thesis by blast
  qed
  have b: "DeAllocNodes q st = Inr (st\<lparr>NodeStackStatus := (NodeStackStatus st)[nat q := 0]\<rparr>)"
    if "0 \<le> q" "q \<le> max_nodes" "q \<noteq> nNodes st - 1"
  proof -
    have ql: "q < int (length (NodeStackStatus st))" using ok that by simp
    from DeAllocNodes_nontop[OF ok(1) that(1) ql that(3)] show ?thesis .
  qed
  have c: "\<exists>st1 st2. alloc_singles N st = Inr st1 \<and> nNodes st1 = nNodes st + int N \<and>
               release_all (map (\<lambda>i. nNodes st + int i) (rev [0..<N])) st1 = Inr st2 \<and>
               nNodes st2 = nNodes st"
    if "nNodes st + int N \<le> max_nodes"
  proof -
    have le: "nNodes st + int N \<le> maxNodes st" using that m by simp
    from alloc_release_roundtrip[OF rc(1) le] show ?thesis by blast
  qed
  have d: "holes st_end \<le> holes st + nontop_releases rs st" if "release_all rs st = Inr st_end" for st_end
    using holes_release_all[OF that] .
  show ?thesis using a b c d by blast
qed

lemma ex_alloc_singles3: "alloc_singles 3 ex_pool = Inr ex_pool3"
  by (simp add: eval_nat_numeral ex_pool3_def ex_pool_explicit allocNodes_def mark_node_def Let_def bind_err_simps)

lemma ex_release_1: "DeAllocNodes 1 ex_pool3 = Inr (ex_pool3\<lparr>NodeStackStatus := [1, 0, 1, 0, -1]\<rparr>)"
  by (simp add: ex_pool3_def ex_pool_explicit DeAllocNodes_def Let_def)

lemma ex_release_2: "DeAllocNodes 2 (ex_pool3\<lparr>NodeStackStatus := [1, 0, 1, 0, -1]\<rparr>) =
    Inr (ex_pool3\<lparr>NodeStackStatus := [1, 0, 0, 0, -1], nNodes := 1\<rparr>)"
  by (simp add: ex_pool3_def ex_pool_explicit DeAllocNodes_def Let_def recede_nodes.simps bind_err_simps)

lemma ex_release_0: "DeAllocNodes 0 (ex_pool3\<lparr>NodeStackStatus := [1, 0, 0, 0, -1], nNodes := 1\<rparr>) =
    Inr (ex_pool3\<lparr>NodeStackStatus := [0, 0, 0, 0, -1], nNodes := 0\<rparr>)"
  by (simp add: ex_pool3_def ex_pool_explicit DeAllocNodes_def Let_def recede_nodes.simps bind_err_simps)

lemma ex_release_120:
  "release_all [1, 2, 0] ex_pool3 = Inr (ex_pool3\<lparr>NodeStackStatus := [0, 0, 0, 0, -1], nNodes := 0\<rparr>)"
  by (simp add: ex_release_1 ex_release_2 ex_release_0 bind_err_simps)

lemma ex_nontop_120: "nontop_releases [1, 2, 0] ex_pool3 = 1"
proof -
  have n: "nNodes ex_pool3 = 3" by (simp add: ex_pool3_def)
  show ?thesis by (simp add: ex_release_1 ex_release_2 ex_release_0 n)
qed

text \<open>
  Claim C4 as stated fails on the hole count: after three allocations, releasing ranks
  1, 2, 0 (not the reverse order) makes one release that is not a top release, and
  leaves no hole.
\<close>

theorem release_holes_counterexample:
  "alloc_singles 3 ex_pool = Inr ex_pool3 \<and>
   map_sum id holes (release_all [1, 2, 0] ex_pool3) = Inr 0 \<and>
   nontop_releases [1, 2, 0] ex_pool3 = 1"
proof -
  have h: "holes (ex_pool3\<lparr>NodeStackStatus := [0, 0, 0, 0, -1], nNodes := 0\<rparr>) = 0"
    by (simp add: holes_def)
  show ?thesis
    unfolding ex_alloc_singles3 ex_release_120 ex_nontop_120 using h by simp
qed

theorem stack_discipline_witness:
  "(0::int) \<le> 4 \<and>
   pool_run [AllocNodes 1, AllocNodes 1, AllocNodes 1] (SerialTree_ctor 1 1 100 200 4096 65536 4) = Inr ex_pool3 \<and>
   ((0::int) \<le> 2 \<and> 2 = nNodes ex_pool3 - 1) \<and>
   (\<exists>st'. DeAllocNodes 2 ex_pool3 = Inr st' \<and>
      NodeStackStatus st' = (NodeStackStatus ex_pool3)[nat 2 := 0] \<and> nNodes st' \<le> 2) \<and>
   ((0::int) \<le> 0 \<and> (0::int) \<le> 4 \<and> 0 \<noteq> nNodes ex_pool3 - 1) \<and>
   DeAllocNodes 0 ex_pool3 = Inr (ex_pool3\<lparr>NodeStackStatus := (NodeStackStatus ex_pool3)[nat 0 := 0]\<rparr>) \<and>
   nNodes ex_pool3 + int 1 \<le> 4 \<and>
   (\<exists>st1 st2. alloc_singles 1 ex_pool3 = Inr st1 \<and> nNodes st1 = nNodes ex_pool3 + int 1 \<and>
      release_all (map (\<lambda>i. nNodes ex_pool3 + int i) (rev [0..<1])) st1 = Inr st2 \<and>
      nNodes st2 = nNodes ex_pool3) \<and>
   release_all [1, 2, 0] ex_pool3 = Inr (ex_pool3\<lparr>NodeStackStatus := [0, 0, 0, 0, -1], nNodes := 0\<rparr>) \<and>
   holes (ex_pool3\<lparr>NodeStackStatus := [0, 0, 0, 0, -1], nNodes := 0\<rparr>)
     \<le> holes ex_pool3 + nontop_releases [1, 2, 0] ex_pool3"
proof -
  have h: "(0::int) \<le> 4" by simp
  have run: "pool_run [AllocNodes 1, AllocNodes 1, AllocNodes 1] (SerialTree_ctor 1 1 100 200 4096 65536 4) = Inr ex_pool3"
    using ex_alloc3 by (simp only: ex_pool_def)
  have n: "nNodes ex_pool3 = 3" by (simp add: ex_pool3_def)
  have p1: "(0::int) \<le> 2 \<and> 2 = nNodes ex_pool3 - 1" using n by simp
  have p2: "(0::int) \<le> 0 \<and> (0::int) \<le> 4 \<and> 0 \<noteq> nNodes ex_pool3 - 1" using n by simp
  have p3: "nNodes ex_pool3 + int 1 \<le> 4" using n by simp
  note T = stack_discipline[OF h run, of 2 0 1 "[1, 2, 0]"]
  show ?thesis
    using T h run p1 p2 p3 ex_release_120 by blast
qed

section \<open>Properties of the recompression pass\<close>

lemma reprF_iff: "reprF N ts \<longleftrightarrow> (\<forall>t\<in>set ts. repr N t)"
  by (induction ts) auto

lemma contigF_iff: "contigF N D stride ts \<longleftrightarrow> (\<forall>t\<in>set ts. contig N D stride t)"
  by (induction ts) auto

lemma root_in_addrs: "root_of t \<in> set (addrs t)"
  by (cases t) simp

lemma addrsF_set: "set (addrsF ts) = (\<Union>t\<in>set ts. set (addrs t))"
  by (induction ts) auto

lemma internF_set: "set (internF ts) = (\<Union>t\<in>set ts. set (intern t))"
  by (induction ts) auto

lemma intern_subset: "set (intern t) \<subseteq> set (addrs t)"
proof (induction t)
  case (Sh a ts)
  then show ?case by (auto simp: internF_set addrsF_set)
qed

lemma internF_subset: "set (internF ts) \<subseteq> set (addrsF ts)"
  using intern_subset by (auto simp: internF_set addrsF_set)

lemma addrsF_append: "addrsF (xs @ ys) = addrsF xs @ addrsF ys"
  by (induction xs) auto

lemma internF_append: "internF (xs @ ys) = internF xs @ internF ys"
  by (induction xs) auto

lemma recompF_append: "recompF K cv (xs @ ys) mem = recompF K cv xs (recompF K cv ys mem)"
  by (induction xs) auto

lemma internF_filter: "internF (filter (\<lambda>t. kids t \<noteq> []) ts) = internF ts"
proof (induction ts)
  case Nil
  then show ?case by simp
next
  case (Cons t ts)
  then show ?case by (cases t) auto
qed

lemma recompF_filter: "recompF K cv (filter (\<lambda>t. kids t \<noteq> []) ts) mem = recompF K cv ts mem"
proof (induction ts)
  case Nil
  then show ?case by simp
next
  case (Cons t ts)
  then show ?case by (cases t) auto
qed

lemma needK_filter: "needK ts = needR (filter (\<lambda>t. kids t \<noteq> []) ts)"
  by (induction ts) auto

lemma need_pos: "0 < need t"
  by (cases t) simp

lemma needR_length: "length ts \<le> needR ts"
  by (induction ts) auto

lemma needR_snoc: "needR (vs @ [u]) = max (needR vs) (length vs + need u)"
proof (induction vs)
  case Nil
  then show ?case using need_pos[of u] by simp
next
  case (Cons v vs)
  then show ?case by simp
qed

lemma getNode_Some: "nodes h a = Some n \<Longrightarrow> getNode h a = Inr n"
  by (simp add: getNode_def)

lemma rd_status_ok: "0 \<le> r \<Longrightarrow> r < int (length st) \<Longrightarrow> rd_status st r = Inr (st ! nat r)"
  by (simp add: rd_status_def)

lemma scan_children_result:
  assumes "\<forall>c\<in>set cs. \<exists>nc. nodes h c = Some nc \<and> 0 \<le> NodeRank nc \<and> NodeRank nc < int (length st)"
      and "length (snd acc) + length (filter (\<lambda>c. \<not> child_ok h st c) cs) < stack_cap"
  shows "scan_children h st cs acc =
           Inr (fst acc + length (filter (child_ok h st) cs),
                rev (filter (\<lambda>c. \<not> child_ok h st c) cs) @ snd acc)"
  using assms
proof (induction cs arbitrary: acc)
  case Nil
  then show ?case by simp
next
  case (Cons c cs)
  from Cons.prems(1) obtain nc where nc: "nodes h c = Some nc" "0 \<le> NodeRank nc"
    "NodeRank nc < int (length st)" by auto
  have rest: "\<forall>c\<in>set cs. \<exists>nc. nodes h c = Some nc \<and> 0 \<le> NodeRank nc \<and> NodeRank nc < int (length st)"
    using Cons.prems(1) by simp
  show ?case
  proof (cases "child_ok h st c")
    case True
    then have ok: "st ! nat (NodeRank nc) > 0 \<or> children nc = []"
      using nc by (simp add: child_ok_def)
    have cap: "length (snd (fst acc + 1, snd acc)) + length (filter (\<lambda>c. \<not> child_ok h st c) cs) < stack_cap"
      using Cons.prems(2) True by simp
    from Cons.IH[OF rest cap] ok True show ?thesis
      by (simp add: getNode_Some[OF nc(1)] rd_status_ok[OF nc(2,3)] bind_err_simps)
  next
    case False
    then have nok: "\<not> (st ! nat (NodeRank nc) > 0 \<or> children nc = [])"
      using nc by (simp add: child_ok_def)
    have cap1: "\<not> stack_cap \<le> length (snd acc) + 1" using Cons.prems(2) False by simp
    have cap: "length (snd (fst acc, c # snd acc)) + length (filter (\<lambda>c. \<not> child_ok h st c) cs) < stack_cap"
      using Cons.prems(2) False by simp
    from Cons.IH[OF rest cap] nok False cap1 show ?thesis
      by (simp add: getNode_Some[OF nc(1)] rd_status_ok[OF nc(2,3)] bind_err_simps)
  qed
qed

lemma up_loop_step:
  "ustack s \<noteq> [] \<Longrightarrow> up_step D K stride s = Inr s' \<Longrightarrow> up_loop D K stride s = up_loop D K stride s'"
  by (subst up_loop.simps) simp

lemma step_pop:
  assumes "nodes h a = Some n" "0 \<le> NodeRank n" "NodeRank n < int (length st)"
      and "children n = [] \<or> st ! nat (NodeRank n) \<noteq> 0"
  shows "up_step D K stride \<lparr>ustack = a # rest, ustatus = st, uheap = h\<rparr> =
           Inr \<lparr>ustack = rest, ustatus = st[nat (NodeRank n) := 1], uheap = h\<rparr>"
  using assms(4)
  by (auto simp: up_step_def getNode_Some[OF assms(1)] rd_status_ok[OF assms(2,3)] bind_err_simps)

lemma step_push:
  assumes "nodes h a = Some n" "0 \<le> NodeRank n" "NodeRank n < int (length st)"
      and "children n \<noteq> []" "st ! nat (NodeRank n) = 0"
      and "\<forall>c\<in>set (children n). \<exists>nc. nodes h c = Some nc \<and> 0 \<le> NodeRank nc \<and> NodeRank nc < int (length st)"
      and "Suc (length rest) + length (filter (\<lambda>c. \<not> child_ok h st c) (children n)) < stack_cap"
      and "\<exists>c\<in>set (children n). \<not> child_ok h st c"
  shows "up_step D K stride \<lparr>ustack = a # rest, ustatus = st, uheap = h\<rparr> =
           Inr \<lparr>ustack = rev (filter (\<lambda>c. \<not> child_ok h st c) (children n)) @ a # rest,
                ustatus = st, uheap = h\<rparr>"
proof -
  have cap: "length (snd (0::nat, a # rest)) + length (filter (\<lambda>c. \<not> child_ok h st c) (children n)) < stack_cap"
    using assms(7) by simp
  have "length (filter (child_ok h st) (children n)) < length (children n)"
    using assms(8) by (auto intro: length_filter_less)
  then have ne: "length (filter (child_ok h st) (children n)) \<noteq> length (children n)" by simp
  show ?thesis
    using assms(4,5) ne
    by (simp add: up_step_def getNode_Some[OF assms(1)] rd_status_ok[OF assms(2,3)] bind_err_simps
        scan_children_result[OF assms(6) cap])
qed

lemma read_blocks_ok:
  "\<forall>p\<in>set ps. mem p \<noteq> None \<Longrightarrow> read_blocks mem ps = Inr (map (\<lambda>p. the (mem p)) ps)"
  by (induction ps) (auto simp: bind_err_simps)

lemma step_compress:
  assumes "nodes h a = Some n" "0 \<le> NodeRank n" "NodeRank n < int (length st)"
      and "children n \<noteq> []" "st ! nat (NodeRank n) = 0"
      and "\<forall>c\<in>set (children n). \<exists>nc. nodes h c = Some nc \<and> 0 \<le> NodeRank nc \<and> NodeRank nc < int (length st)"
      and "Suc (length rest) < stack_cap"
      and "\<forall>c\<in>set (children n). child_ok h st c"
      and "nodes h (hd (children n)) = Some n0"
      and "D = 3" "coefmem h (coefvec n) \<noteq> None"
      and "map (\<lambda>ft. coefvec n0 + 8 * (int ft * stride)) [0..<2 ^ D] = ps"
      and "\<forall>p\<in>set ps. coefmem h p \<noteq> None"
  shows "up_step D K stride \<lparr>ustack = a # rest, ustatus = st, uheap = h\<rparr> =
           Inr \<lparr>ustack = a # rest, ustatus = st[nat (NodeRank n) := 1],
                uheap = h\<lparr>coefmem := (coefmem h)(coefvec n \<mapsto> K (map (\<lambda>p. the (coefmem h p)) ps))\<rparr>\<rparr>"
proof -
  have f: "filter (\<lambda>c. \<not> child_ok h st c) (children n) = []" "filter (child_ok h st) (children n) = children n"
    using assms(8) by (simp_all add: filter_empty_conv)
  have cap: "length (snd (0::nat, a # rest)) + length (filter (\<lambda>c. \<not> child_ok h st c) (children n)) < stack_cap"
    using assms(7) f by simp
  have tb: "S_mwTransformBack D K (coefvec n0) (coefvec n) stride (coefmem h) =
            Inr ((coefmem h)(coefvec n \<mapsto> K (map (\<lambda>p. the (coefmem h p)) ps)))"
    unfolding S_mwTransformBack_def assms(12)
    using assms(10,11) read_blocks_ok[OF assms(13)]
    by (simp add: bind_err_simps)
  show ?thesis
    using assms(4,5)
    by (simp add: up_step_def getNode_Some[OF assms(1)] rd_status_ok[OF assms(2,3)] bind_err_simps
        scan_children_result[OF assms(6) cap] f getNode_Some[OF assms(9)] tb)
qed

lemma nodes_ok_append:
  "nodes_ok N len mem (xs @ ys) \<Longrightarrow> nodes_ok N len mem xs \<and> nodes_ok N len mem ys"
  by (auto simp: nodes_ok_def)

lemma nodes_ok_disjoint:
  assumes "nodes_ok N len mem (xs @ ys)" "x \<in> set xs" "y \<in> set ys"
  shows "x \<noteq> y" "rk_of N x \<noteq> rk_of N y" "cv_of N x \<noteq> cv_of N y"
  using assms by (auto simp: nodes_ok_def)

lemma nodes_ok_mem:
  "nodes_ok N len mem as \<Longrightarrow> (\<And>x. mem x \<noteq> None \<Longrightarrow> mem' x \<noteq> None) \<Longrightarrow> nodes_ok N len mem' as"
  by (auto simp: nodes_ok_def)

lemma nodes_ok_inj:
  assumes "nodes_ok N len mem as" "x \<in> set as" "y \<in> set as"
  shows "rk_of N x = rk_of N y \<longleftrightarrow> x = y" "cv_of N x = cv_of N y \<longleftrightarrow> x = y"
  using assms by (auto simp: nodes_ok_def distinct_map inj_on_def)

lemma marked_refl: "marked N [] st st"
  by (simp add: marked_def)

lemma marked_trans:
  "marked N as st st1 \<Longrightarrow> marked N bs st1 st2 \<Longrightarrow> marked N (bs @ as) st st2"
  by (auto simp: marked_def)

lemma marked_same_set: "set as = set bs \<Longrightarrow> marked N as st st' \<Longrightarrow> marked N bs st st'"
  by (simp add: marked_def)

lemma marked_update:
  assumes "0 \<le> rk_of N a" "rk_of N a < int (length st)"
  shows "marked N [a] st (st[nat (rk_of N a) := 1])"
  using assms by (auto simp: marked_def nth_list_update)

lemma marked_other:
  assumes "marked N as st st'" "0 \<le> r" "r < int (length st)" "r \<notin> rk_of N ` set as"
  shows "st' ! nat r = st ! nat r"
  using assms by (auto simp: marked_def)

lemma marked_in:
  assumes "marked N as st st'" "a \<in> set as" "0 \<le> rk_of N a" "rk_of N a < int (length st)"
  shows "st' ! nat (rk_of N a) = 1"
proof -
  have "int (nat (rk_of N a)) \<in> rk_of N ` set as" using assms(2,3) by simp
  then show ?thesis using assms(1,3,4) by (auto simp: marked_def)
qed

lemma write_block_dom: "mem x \<noteq> None \<Longrightarrow> write_block K cv a cs mem x \<noteq> None"
  by (simp add: write_block_def)

lemma recomp_dom_both:
  "(\<forall>mem. mem x \<noteq> None \<longrightarrow> recomp K cv t mem x \<noteq> None)"
proof (induction t)
  case (Sh a ts)
  have F: "mem x \<noteq> None \<Longrightarrow> recompF K cv us mem x \<noteq> None" if "set us \<subseteq> set ts" for us mem
    using that
  proof (induction us)
    case Nil
    then show ?case by simp
  next
    case (Cons u us)
    then show ?case using Sh.IH[of u] by auto
  qed
  show ?case using F[of ts] by (auto simp: write_block_def)
qed

lemma recomp_dom: "mem x \<noteq> None \<Longrightarrow> recomp K cv t mem x \<noteq> None"
  using recomp_dom_both by blast

lemma recompF_dom: "mem x \<noteq> None \<Longrightarrow> recompF K cv ts mem x \<noteq> None"
  by (induction ts) (simp_all add: recomp_dom)

lemma recomp_frame: "x \<notin> cv ` set (intern t) \<Longrightarrow> recomp K cv t mem x = mem x"
proof (induction t arbitrary: mem)
  case (Sh a ts)
  have F: "recompF K cv us mem x = mem x" if "set us \<subseteq> set ts" for us mem
    using that
  proof (induction us)
    case Nil
    then show ?case by simp
  next
    case (Cons u us)
    then have "ts \<noteq> []" by auto
    then have "x \<notin> cv ` set (intern u)" using Sh.prems Cons.prems by (auto simp: internF_set)
    then show ?case using Sh.IH[of u] Cons by auto
  qed
  show ?case using F[of ts] Sh.prems by (auto simp: write_block_def)
qed

lemma recompF_frame: "x \<notin> cv ` set (internF ts) \<Longrightarrow> recompF K cv ts mem x = mem x"
  by (induction ts arbitrary: mem) (simp_all add: recomp_frame image_Un)

lemma nodes_ok_append_iff:
  "nodes_ok N len mem (xs @ ys) \<longleftrightarrow>
     nodes_ok N len mem xs \<and> nodes_ok N len mem ys \<and>
     (\<forall>x\<in>set xs. \<forall>y\<in>set ys. x \<noteq> y \<and> rk_of N x \<noteq> rk_of N y \<and> cv_of N x \<noteq> cv_of N y)"
  by (auto simp: nodes_ok_def)

lemma addrsF_filter_subset: "set (addrsF (filter P ts)) \<subseteq> set (addrsF ts)"
  by (auto simp: addrsF_set)

lemma nodes_ok_filter:
  "nodes_ok N len mem (addrsF ts) \<Longrightarrow> nodes_ok N len mem (addrsF (filter P ts))"
proof (induction ts)
  case Nil
  then show ?case by simp
next
  case (Cons t ts)
  then have a: "nodes_ok N len mem (addrs t)" "nodes_ok N len mem (addrsF ts)"
    and d: "\<forall>x\<in>set (addrs t). \<forall>y\<in>set (addrsF ts). x \<noteq> y \<and> rk_of N x \<noteq> rk_of N y \<and> cv_of N x \<noteq> cv_of N y"
    by (simp_all add: nodes_ok_append_iff)
  from Cons.IH[OF a(2)] have f: "nodes_ok N len mem (addrsF (filter P ts))" .
  show ?case
  proof (cases "P t")
    case True
    then show ?thesis using a(1) f d addrsF_filter_subset[of P ts]
      by (simp add: nodes_ok_append_iff) blast
  next
    case False
    then show ?thesis using f by simp
  qed
qed

lemma touched_subset: "set (touched t) \<subseteq> set (addrs t)"
  using intern_subset[of t] root_in_addrs[of t] by (auto simp: touched_def)

lemma touchedF_subset: "set (concat (map touched us)) \<subseteq> set (addrsF us)"
  using touched_subset by (auto simp: addrsF_set)

lemma repr_node: "repr N (Sh a ts) \<Longrightarrow> \<exists>n. N a = Some n \<and> children n = map root_of ts"
  by (auto split: option.splits)

lemma repr_root: "repr N t \<Longrightarrow> \<exists>n. N (root_of t) = Some n \<and> children n = map root_of (kids t)"
  by (cases t) (auto split: option.splits)

lemma heap_same: "h\<lparr>coefmem := coefmem h\<rparr> = h"
  by simp

lemma forest_from_trees:
  fixes h :: "('a, 'n) heap" and K :: "'a list list \<Rightarrow> 'a list"
  assumes T: "\<And>u rest st (h :: ('a, 'n) heap). u \<in> set us \<Longrightarrow>
                tree_pre D stride h st rest u \<Longrightarrow> tree_post D K stride h st rest u"
  shows "forest_pre D stride h st rest us \<Longrightarrow> forest_post D K stride h st rest us"
  using T
proof (induction us arbitrary: st h rule: rev_induct)
  case Nil
  show ?case
    unfolding forest_post_def
    by (rule exI[of _ st]) (simp add: marked_refl)
next
  case (snoc u vs)
  let ?N = "nodes h" and ?mem = "coefmem h"
  let ?cv = "cv_of (nodes h)"
  from snoc.prems(1) have D3: "D = 3" and rp: "reprF ?N (vs @ [u])" and ct: "contigF ?N D stride (vs @ [u])"
    and nok: "nodes_ok ?N (length st) ?mem (addrsF vs @ addrs u)"
    and z: "\<forall>a\<in>set (internF vs) \<union> set (intern u). st ! nat (rk_of ?N a) = 0"
    and cap: "length rest + needR (vs @ [u]) < stack_cap"
    by (auto simp: forest_pre_def addrsF_append internF_append)
  have nok_u: "nodes_ok ?N (length st) ?mem (addrs u)" and nok_vs: "nodes_ok ?N (length st) ?mem (addrsF vs)"
    using nok by (simp_all add: nodes_ok_append_iff)
  have pre_u: "tree_pre D stride h st (rev (map root_of vs) @ rest) u"
    using D3 rp ct nok_u z cap
    by (simp add: tree_pre_def reprF_iff contigF_iff needR_snoc)
  from snoc.prems(2)[OF _ pre_u] obtain st1 where
    m1: "marked ?N (touched u) st st1" and
    L1: "up_loop D K stride \<lparr>ustack = root_of u # rev (map root_of vs) @ rest, ustatus = st, uheap = h\<rparr> =
         up_loop D K stride \<lparr>ustack = rev (map root_of vs) @ rest, ustatus = st1,
           uheap = h\<lparr>coefmem := recomp K ?cv u ?mem\<rparr>\<rparr>"
    by (auto simp: tree_post_def)
  let ?h1 = "h\<lparr>coefmem := recomp K ?cv u ?mem\<rparr>"
  have len1: "length st1 = length st" using m1 by (simp add: marked_def)
  have z1: "st1 ! nat (rk_of ?N a) = 0" if "a \<in> set (internF vs)" for a
  proof -
    have a: "a \<in> set (addrsF vs)" using that internF_subset by blast
    have r: "0 \<le> rk_of ?N a" "rk_of ?N a < int (length st)"
      using nok_vs a by (auto simp: nodes_ok_def)
    have "rk_of ?N a \<notin> rk_of ?N ` set (touched u)"
      using nodes_ok_disjoint(2)[OF nok a] touched_subset[of u] by blast
    from marked_other[OF m1 r this] z that show ?thesis by simp
  qed
  have pre_vs: "forest_pre D stride ?h1 st1 rest vs"
    using D3 rp ct cap z1 len1 nodes_ok_mem[OF nok_vs, of "recomp K ?cv u ?mem"]
    by (simp add: forest_pre_def reprF_iff contigF_iff needR_snoc recomp_dom)
  have "forest_post D K stride ?h1 st1 rest vs"
    by (rule snoc.IH[OF pre_vs]) (use snoc.prems(2) in auto)
  then obtain st2 where
    m2: "marked ?N (concat (map touched vs)) st1 st2" and
    L2: "up_loop D K stride \<lparr>ustack = rev (map root_of vs) @ rest, ustatus = st1, uheap = ?h1\<rparr> =
         up_loop D K stride \<lparr>ustack = rest, ustatus = st2,
           uheap = h\<lparr>coefmem := recompF K ?cv vs (recomp K ?cv u ?mem)\<rparr>\<rparr>"
    by (auto simp: forest_post_def)
  have m: "marked ?N (concat (map touched vs) @ touched u) st st2"
    by (rule marked_trans[OF m1 m2])
  show ?case
    unfolding forest_post_def
    by (rule exI[of _ st2]) (simp add: m L1 L2 recompF_append)
qed

lemma marked_nil_eq: "marked N [] st st' \<Longrightarrow> st' = st"
  by (auto simp: marked_def intro: nth_equalityI)

lemma tree_pass:
  fixes h :: "('a, 'n) heap" and K :: "'a list list \<Rightarrow> 'a list"
  shows "tree_pre D stride h st rest t \<Longrightarrow> tree_post D K stride h st rest t"
proof (induction t arbitrary: h st rest)
  case (Sh a ts)
  let ?N = "nodes h" and ?mem = "coefmem h"
  let ?cv = "cv_of (nodes h)" and ?rk = "rk_of (nodes h)"
  let ?t = "Sh a ts"
  from Sh.prems have D3: "D = 3" and rp: "repr ?N ?t" and ct: "contig ?N D stride ?t"
    and nok: "nodes_ok ?N (length st) ?mem (a # addrsF ts)"
    and z: "\<forall>x\<in>set (intern ?t). st ! nat (?rk x) = 0"
    and cap: "length rest + (1 + needK ts) < stack_cap"
    by (auto simp: tree_pre_def)
  from repr_node[OF rp] obtain n where n: "?N a = Some n" "children n = map root_of ts" by blast
  have rka: "?rk a = NodeRank n" and cva: "?cv a = coefvec n"
    using n by (simp_all add: rk_of_def cv_of_def)
  have rg: "0 \<le> NodeRank n" "NodeRank n < int (length st)"
    using nok rka by (auto simp: nodes_ok_def)
  show ?case
  proof (cases "ts = []")
    case True
    have st: "up_step D K stride \<lparr>ustack = a # rest, ustatus = st, uheap = h\<rparr> =
           Inr \<lparr>ustack = rest, ustatus = st[nat (NodeRank n) := 1], uheap = h\<rparr>"
      by (rule step_pop[OF n(1) rg]) (simp add: n(2) True)
    have L: "up_loop D K stride \<lparr>ustack = a # rest, ustatus = st, uheap = h\<rparr> =
             up_loop D K stride \<lparr>ustack = rest, ustatus = st[nat (NodeRank n) := 1], uheap = h\<rparr>"
      by (rule up_loop_step[OF _ st]) simp
    have "marked ?N [a] st (st[nat (?rk a) := 1])"
      by (rule marked_update) (use rg rka in simp_all)
    then have m: "marked ?N (touched ?t) st (st[nat (NodeRank n) := 1])"
      unfolding rka by (simp add: touched_def True)
    have rc: "recomp K ?cv ?t ?mem = ?mem" using True by simp
    show ?thesis
      unfolding tree_post_def rc
      by (rule exI[of _ "st[nat (NodeRank n) := 1]"]) (simp add: m L)
  next
    case False
    let ?us = "filter (\<lambda>u. kids u \<noteq> []) ts"
    have rpF: "reprF ?N ts" and ctF: "contigF ?N D stride ts" using rp ct by simp_all
    have nokF: "nodes_ok ?N (length st) ?mem (addrsF ts)"
      using nok nodes_ok_append[of ?N "length st" ?mem "[a]" "addrsF ts"] by simp
    have a_notin: "a \<notin> set (addrsF ts)" using nok by (simp add: nodes_ok_def)
    have rk_a_notin: "?rk a \<notin> ?rk ` set (addrsF ts)"
      using nok by (auto simp: nodes_ok_def)
    have cv_a_notin: "?cv a \<notin> ?cv ` set (addrsF ts)"
      using nok by (auto simp: nodes_ok_def)
    have za: "st ! nat (NodeRank n) = 0" using z False rka by simp
    have zF: "\<forall>x\<in>set (internF ts). st ! nat (?rk x) = 0" using z False by simp
    \<comment> \<open>the children\<close>
    have kid: "\<exists>nc. ?N (root_of u) = Some nc \<and> children nc = map root_of (kids u) \<and>
                 0 \<le> NodeRank nc \<and> NodeRank nc < int (length st) \<and> ?rk (root_of u) = NodeRank nc"
      if "u \<in> set ts" for u
    proof -
      from rpF that have "repr ?N u" by (simp add: reprF_iff)
      from repr_root[OF this] obtain nc where nc: "?N (root_of u) = Some nc"
        "children nc = map root_of (kids u)" by blast
      have "root_of u \<in> set (addrsF ts)" using that root_in_addrs[of u] by (auto simp: addrsF_set)
      then have "0 \<le> ?rk (root_of u)" "?rk (root_of u) < int (length st)"
        using nokF by (auto simp: nodes_ok_def)
      then show ?thesis using nc by (auto simp: rk_of_def)
    qed
    have kids_nodes: "\<forall>c\<in>set (children n). \<exists>nc. nodes hx c = Some nc \<and> 0 \<le> NodeRank nc \<and>
                        NodeRank nc < int (length stx)"
      if "nodes hx = ?N" "length stx = length st" for hx :: "('a, 'n) heap" and stx :: "int list"
      using kid that by (auto simp: n(2))
    \<comment> \<open>first visit\<close>
    have ok0: "child_ok h st (root_of u) \<longleftrightarrow> kids u = []" if "u \<in> set ts" for u
    proof -
      from kid[OF that] obtain nc where nc: "?N (root_of u) = Some nc"
        "children nc = map root_of (kids u)" "0 \<le> NodeRank nc" "NodeRank nc < int (length st)"
        "?rk (root_of u) = NodeRank nc" by blast
      have "st ! nat (NodeRank nc) = 0" if i: "kids u \<noteq> []"
      proof -
        have "root_of u \<in> set (intern u)" using i by (cases u) simp
        then have "root_of u \<in> set (internF ts)" using \<open>u \<in> set ts\<close> by (auto simp: internF_set)
        then show ?thesis using zF nc(5) by auto
      qed
      then show ?thesis using nc by (cases "kids u = []") (auto simp: child_ok_def)
    qed
    have notok: "filter (\<lambda>c. \<not> child_ok h st c) (children n) = map root_of ?us"
      unfolding n(2) filter_map
      by (rule arg_cong[where f = "map root_of"], rule filter_cong) (auto simp: ok0)
    have capK: "Suc (length rest) + needR ?us < stack_cap"
      using cap needK_filter[of ts] by simp
    have capL: "Suc (length rest) + length ?us < stack_cap"
      using capK needR_length[of ?us] by simp
    have E1: "up_loop D K stride \<lparr>ustack = a # rest, ustatus = st, uheap = h\<rparr> =
              up_loop D K stride \<lparr>ustack = rev (map root_of ?us) @ a # rest, ustatus = st, uheap = h\<rparr>"
    proof (cases "?us = []")
      case True
      then show ?thesis by simp
    next
      case ne: False
      then obtain u where u: "u \<in> set ts" "kids u \<noteq> []"
        by (metis (mono_tags, lifting) filter_False)
      then have ex: "\<exists>c\<in>set (children n). \<not> child_ok h st c"
        using ok0[OF u(1)] by (auto simp: n(2))
      have c7: "Suc (length rest) + length (filter (\<lambda>c. \<not> child_ok h st c) (children n)) < stack_cap"
        using capL notok by simp
      have cn: "children n \<noteq> []" using False n(2) by simp
      from step_push[OF n(1) rg cn za kids_nodes[OF refl refl] c7 ex, of D K stride]
      have "up_step D K stride \<lparr>ustack = a # rest, ustatus = st, uheap = h\<rparr> =
            Inr \<lparr>ustack = rev (map root_of ?us) @ a # rest, ustatus = st, uheap = h\<rparr>"
        by (simp add: notok rev_map)
      from up_loop_step[OF _ this] show ?thesis by simp
    qed
    \<comment> \<open>the children with children\<close>
    have preF: "forest_pre D stride h st (a # rest) ?us"
      using D3 rpF ctF nodes_ok_filter[OF nokF] zF capK
      by (auto simp: forest_pre_def reprF_iff contigF_iff internF_filter)
    have "forest_post D K stride h st (a # rest) ?us"
    proof (rule forest_from_trees[OF _ preF])
      fix u rest' st' and h' :: "('a, 'n) heap"
      assume "u \<in> set ?us" "tree_pre D stride h' st' rest' u"
      then show "tree_post D K stride h' st' rest' u" using Sh.IH[of u h' st' rest'] by simp
    qed
    then obtain st1 where
      m1: "marked ?N (concat (map touched ?us)) st st1" and
      L2: "up_loop D K stride \<lparr>ustack = rev (map root_of ?us) @ a # rest, ustatus = st, uheap = h\<rparr> =
           up_loop D K stride \<lparr>ustack = a # rest, ustatus = st1,
             uheap = h\<lparr>coefmem := recompF K ?cv ts ?mem\<rparr>\<rparr>"
      by (auto simp: forest_post_def recompF_filter)
    let ?m1 = "recompF K ?cv ts ?mem"
    let ?h1 = "h\<lparr>coefmem := ?m1\<rparr>"
    have len1: "length st1 = length st" using m1 by (simp add: marked_def)
    have tset: "set (concat (map touched ?us)) = set (internF ts)"
    proof -
      have "concat (map touched ?us) = internF ?us"
        by (induction ts) (auto simp: touched_def)
      then show ?thesis by (simp add: internF_filter)
    qed
    have mF: "marked ?N (internF ts) st st1"
      by (rule marked_same_set[OF tset m1])
    have za1: "st1 ! nat (NodeRank n) = 0"
    proof -
      have "?rk a \<notin> ?rk ` set (internF ts)" using rk_a_notin internF_subset[of ts] by blast
      from marked_other[OF mF _ _ this] rg rka za show ?thesis by simp
    qed
    have ok1: "child_ok ?h1 st1 c" if "c \<in> set (children n)" for c
    proof -
      from that obtain u where u: "u \<in> set ts" "c = root_of u" by (auto simp: n(2))
      from kid[OF u(1)] obtain nc where nc: "?N (root_of u) = Some nc"
        "children nc = map root_of (kids u)" "0 \<le> NodeRank nc" "NodeRank nc < int (length st)"
        "?rk (root_of u) = NodeRank nc" by blast
      have "st1 ! nat (NodeRank nc) = 1" if i: "kids u \<noteq> []"
      proof -
        have "root_of u \<in> set (intern u)" using i by (cases u) simp
        then have "root_of u \<in> set (internF ts)" using u(1) by (auto simp: internF_set)
        from marked_in[OF mF this] nc show ?thesis by simp
      qed
      then show ?thesis using nc u(2) len1 by (cases "kids u = []") (auto simp: child_ok_def)
    qed
    \<comment> \<open>the blocks of the children\<close>
    obtain n0 where n0: "?N (hd (children n)) = Some n0" "?cv (root_of (hd ts)) = coefvec n0"
    proof -
      have "hd ts \<in> set ts" using False by simp
      from kid[OF this] obtain nc where "?N (root_of (hd ts)) = Some nc" by blast
      moreover have "hd (children n) = root_of (hd ts)" using False n(2) by (simp add: hd_map)
      ultimately show ?thesis using that by (auto simp: cv_of_def)
    qed
    let ?ps = "map (\<lambda>t. ?cv (root_of t)) ts"
    have ps: "map (\<lambda>ft. coefvec n0 + 8 * (int ft * stride)) [0..<2 ^ D] = ?ps"
      using ct False n0(2) by simp
    have psdef: "\<forall>p\<in>set ?ps. ?m1 p \<noteq> None"
    proof
      fix p assume "p \<in> set ?ps"
      then obtain u where u: "u \<in> set ts" "p = ?cv (root_of u)" by auto
      have "root_of u \<in> set (addrsF ts)" using u(1) root_in_addrs[of u] by (auto simp: addrsF_set)
      then have "?mem p \<noteq> None" using nokF u(2) by (auto simp: nodes_ok_def)
      then show "?m1 p \<noteq> None" by (rule recompF_dom)
    qed
    have adef: "coefmem ?h1 (coefvec n) \<noteq> None"
    proof -
      have "?mem (?cv a) \<noteq> None" using nok by (simp add: nodes_ok_def)
      then show ?thesis using recompF_dom[of ?mem "?cv a" K ?cv ts] cva by simp
    qed
    have cn: "children n \<noteq> []" using False n(2) by simp
    have s1: "Suc (length rest) < stack_cap" using cap by simp
    have rg1: "NodeRank n < int (length st1)" using rg len1 by simp
    have st_c: "up_step D K stride \<lparr>ustack = a # rest, ustatus = st1, uheap = ?h1\<rparr> =
           Inr \<lparr>ustack = a # rest, ustatus = st1[nat (NodeRank n) := 1],
                uheap = ?h1\<lparr>coefmem := (coefmem ?h1)(coefvec n \<mapsto> K (map (\<lambda>p. the (coefmem ?h1 p)) ?ps))\<rparr>\<rparr>"
    proof (rule step_compress[where ?n0.0 = n0])
      show "nodes ?h1 a = Some n" using n(1) by simp
      show "0 \<le> NodeRank n" "NodeRank n < int (length st1)" using rg rg1 by simp_all
      show "children n \<noteq> []" by (rule cn)
      show "st1 ! nat (NodeRank n) = 0" by (rule za1)
      show "\<forall>c\<in>set (children n). \<exists>nc. nodes ?h1 c = Some nc \<and> 0 \<le> NodeRank nc \<and> NodeRank nc < int (length st1)"
        by (rule kids_nodes) (simp_all add: len1)
      show "Suc (length rest) < stack_cap" by (rule s1)
      show "\<forall>c\<in>set (children n). child_ok ?h1 st1 c" using ok1 by blast
      show "nodes ?h1 (hd (children n)) = Some n0" using n0(1) by simp
      show "D = 3" by (rule D3)
      show "coefmem ?h1 (coefvec n) \<noteq> None" by (rule adef)
      show "map (\<lambda>ft. coefvec n0 + 8 * (int ft * stride)) [0..<2 ^ D] = ?ps" by (rule ps)
      show "\<forall>p\<in>set ?ps. coefmem ?h1 p \<noteq> None" using psdef by simp
    qed
    have final_mem: "(coefmem ?h1)(coefvec n \<mapsto> K (map (\<lambda>p. the (coefmem ?h1 p)) ?ps)) = recomp K ?cv ?t ?mem"
      using False cva by (simp add: write_block_def comp_def)
    let ?st2 = "st1[nat (NodeRank n) := 1]"
    let ?h2 = "h\<lparr>coefmem := recomp K ?cv ?t ?mem\<rparr>"
    have st_c': "up_step D K stride \<lparr>ustack = a # rest, ustatus = st1, uheap = ?h1\<rparr> =
           Inr \<lparr>ustack = a # rest, ustatus = ?st2, uheap = ?h2\<rparr>"
      using st_c unfolding final_mem by simp
    have L3: "up_loop D K stride \<lparr>ustack = a # rest, ustatus = st1, uheap = ?h1\<rparr> =
              up_loop D K stride \<lparr>ustack = a # rest, ustatus = ?st2, uheap = ?h2\<rparr>"
      by (rule up_loop_step[OF _ st_c']) simp
    have st_p: "up_step D K stride \<lparr>ustack = a # rest, ustatus = ?st2, uheap = ?h2\<rparr> =
           Inr \<lparr>ustack = rest, ustatus = ?st2[nat (NodeRank n) := 1], uheap = ?h2\<rparr>"
    proof (rule step_pop)
      show "nodes ?h2 a = Some n" using n(1) by simp
      show "0 \<le> NodeRank n" "NodeRank n < int (length ?st2)" using rg rg1 by simp_all
      show "children n = [] \<or> ?st2 ! nat (NodeRank n) \<noteq> 0" using rg rg1 by simp
    qed
    have L4: "up_loop D K stride \<lparr>ustack = a # rest, ustatus = ?st2, uheap = ?h2\<rparr> =
              up_loop D K stride \<lparr>ustack = rest, ustatus = ?st2, uheap = ?h2\<rparr>"
      using up_loop_step[OF _ st_p] by simp
    have "marked ?N [a] st1 (st1[nat (?rk a) := 1])"
      by (rule marked_update) (use rg rg1 rka in simp_all)
    then have m2: "marked ?N [a] st1 ?st2" unfolding rka .
    have m: "marked ?N (touched ?t) st ?st2"
      using marked_trans[OF mF m2] False by (simp add: touched_def)
    have L: "up_loop D K stride \<lparr>ustack = a # rest, ustatus = st, uheap = h\<rparr> =
             up_loop D K stride \<lparr>ustack = rest, ustatus = ?st2, uheap = ?h2\<rparr>"
      by (simp only: E1 L2 L3 L4)
    show ?thesis
      unfolding tree_post_def
      by (intro exI[of _ ?st2] conjI m) (simp only: shape.sel L)
  qed
qed

lemma repr_children_in:
  "repr N t \<Longrightarrow> a \<in> set (addrs t) \<Longrightarrow> N a = Some n \<Longrightarrow> set (children n) \<subseteq> set (addrs t)"
proof (induction t)
  case (Sh b ts)
  show ?case
  proof (cases "a = b")
    case True
    then have "children n = map root_of ts" using Sh.prems by (auto split: option.splits)
    then show ?thesis using root_in_addrs by (auto simp: addrsF_set)
  next
    case False
    then obtain u where u: "u \<in> set ts" "a \<in> set (addrs u)"
      using Sh.prems(2) by (auto simp: addrsF_set)
    have "repr N u" using Sh.prems(1) u(1) by (simp add: reprF_iff)
    from Sh.IH[OF u(1) this u(2) Sh.prems(3)] u(1) show ?thesis by (auto simp: addrsF_set)
  qed
qed

lemma intern_children:
  "repr N t \<Longrightarrow> a \<in> set (intern t) \<Longrightarrow> \<exists>n. N a = Some n \<and> children n \<noteq> []"
proof (induction t)
  case (Sh b ts)
  then have ne: "ts \<noteq> []" by auto
  show ?case
  proof (cases "a = b")
    case True
    then show ?thesis using Sh.prems(1) ne by (auto split: option.splits)
  next
    case False
    then obtain u where u: "u \<in> set ts" "a \<in> set (intern u)"
      using Sh.prems(2) ne by (auto simp: internF_set)
    have "repr N u" using Sh.prems(1) u(1) by (simp add: reprF_iff)
    from Sh.IH[OF u(1) this u(2)] show ?thesis .
  qed
qed

lemma leaf_not_intern:
  assumes "repr N t" "a \<in> set (addrs t)" "N a = Some n" "children n = []"
  shows "a \<notin> set (intern t)"
  using intern_children[OF assms(1), of a] assms(3,4) by auto

text \<open>The block of every node with children is the kernel's value on the final blocks of its children.\<close>

lemma recomp_eq:
  fixes K :: "'a list list \<Rightarrow> 'a list"
  assumes "repr N t" "distinct (map cv (addrs t))"
  shows "\<forall>a\<in>set (intern t). \<forall>n. N a = Some n \<longrightarrow>
           recomp K cv t mem (cv a) = Some (K (map (\<lambda>c. the (recomp K cv t mem (cv c))) (children n)))"
  using assms
proof (induction t arbitrary: mem)
  case (Sh b ts)
  have rpF: "reprF N ts" using Sh.prems(1) by simp
  have dF: "distinct (map cv (addrsF ts))" and bcv: "cv b \<notin> cv ` set (addrsF ts)"
    using Sh.prems(2) by simp_all
  \<comment> \<open>the statement for the list of children\<close>
  have F: "\<forall>a\<in>set (internF us). \<forall>n. N a = Some n \<longrightarrow>
           recompF K cv us m (cv a) = Some (K (map (\<lambda>c. the (recompF K cv us m (cv c))) (children n)))"
    if "set us \<subseteq> set ts" "distinct (map cv (addrsF us))" for us and m :: "addr \<rightharpoonup> 'a list"
    using that
  proof (induction us)
    case Nil
    then show ?case by simp
  next
    case (Cons u us)
    have u: "u \<in> set ts" and us: "set us \<subseteq> set ts" using Cons.prems(1) by simp_all
    have du: "distinct (map cv (addrs u))" and dus: "distinct (map cv (addrsF us))"
      and dj: "cv ` set (addrs u) \<inter> cv ` set (addrsF us) = {}"
      using Cons.prems(2) by auto
    have ru: "repr N u" using rpF u by (simp add: reprF_iff)
    have rus: "reprF N us" using rpF us by (auto simp: reprF_iff)
    let ?m = "recompF K cv us m"
    show ?case
    proof (intro ballI allI impI)
      fix a n assume a: "a \<in> set (internF (u # us))" and n: "N a = Some n"
      show "recompF K cv (u # us) m (cv a) =
              Some (K (map (\<lambda>c. the (recompF K cv (u # us) m (cv c))) (children n)))"
      proof (cases "a \<in> set (intern u)")
        case True
        from Sh.IH[OF u ru du, of ?m] True n show ?thesis by simp
      next
        case False
        then have ain: "a \<in> set (internF us)" using a by simp
        then have aa: "a \<in> set (addrsF us)" using internF_subset by blast
        have "cv a \<notin> cv ` set (intern u)" using dj aa intern_subset[of u] by blast
        then have e1: "recomp K cv u ?m (cv a) = ?m (cv a)" by (rule recomp_frame)
        have kin: "set (children n) \<subseteq> set (addrsF us)"
        proof -
          from aa obtain w where w: "w \<in> set us" "a \<in> set (addrs w)" by (auto simp: addrsF_set)
          have "repr N w" using rus w(1) by (simp add: reprF_iff)
          from repr_children_in[OF this w(2) n] w(1) show ?thesis by (auto simp: addrsF_set)
        qed
        have e2: "recomp K cv u ?m (cv c) = ?m (cv c)" if "c \<in> set (children n)" for c
        proof -
          have "cv c \<notin> cv ` set (intern u)" using dj kin that intern_subset[of u] by blast
          then show ?thesis by (rule recomp_frame)
        qed
        from Cons.IH[OF us dus] ain n
        have "?m (cv a) = Some (K (map (\<lambda>c. the (?m (cv c))) (children n)))" by blast
        then show ?thesis using e1 e2 by (simp cong: map_cong)
      qed
    qed
  qed
  show ?case
  proof (cases "ts = []")
    case True
    then show ?thesis by simp
  next
    case False
    let ?m = "recompF K cv ts mem"
    obtain nb where nb: "N b = Some nb" "children nb = map root_of ts"
      using repr_node[OF Sh.prems(1)] by blast
    show ?thesis
    proof (intro ballI allI impI)
      fix a n assume a: "a \<in> set (intern (Sh b ts))" and n: "N a = Some n"
      have R: "recomp K cv (Sh b ts) mem x = (if x = cv b then Some (K (map (\<lambda>c. the (?m (cv c))) (map root_of ts))) else ?m x)" for x
        using False by (simp add: write_block_def)
      show "recomp K cv (Sh b ts) mem (cv a) =
              Some (K (map (\<lambda>c. the (recomp K cv (Sh b ts) mem (cv c))) (children n)))"
      proof (cases "a = b")
        case True
        have "cv c \<noteq> cv b" if "c \<in> set (children n)" for c
        proof -
          have "c \<in> set (addrsF ts)" using that n nb True root_in_addrs by (auto simp: addrsF_set)
          then show ?thesis using bcv by (metis imageI)
        qed
        then show ?thesis using True n nb by (simp add: R cong: map_cong del: recomp.simps)
      next
        case ne: False
        then have ain: "a \<in> set (internF ts)" using a False by simp
        then have aa: "a \<in> set (addrsF ts)" using internF_subset by blast
        have kin: "set (children n) \<subseteq> set (addrsF ts)"
        proof -
          from aa obtain w where w: "w \<in> set ts" "a \<in> set (addrs w)" by (auto simp: addrsF_set)
          have "repr N w" using rpF w(1) by (simp add: reprF_iff)
          from repr_children_in[OF this w(2) n] w(1) show ?thesis by (auto simp: addrsF_set)
        qed
        have c1: "cv a \<noteq> cv b" using bcv aa by (metis imageI)
        have c2: "cv c \<noteq> cv b" if "c \<in> set (children n)" for c
          using bcv kin that by (metis imageI subsetD)
        from F[OF subset_refl dF, of mem] ain n
        have "?m (cv a) = Some (K (map (\<lambda>c. the (?m (cv c))) (children n)))" by blast
        then show ?thesis using c1 c2 by (simp add: R cong: map_cong del: recomp.simps)
      qed
    qed
  qed
qed

lemma recompF_eq:
  fixes K :: "'a list list \<Rightarrow> 'a list"
  assumes "reprF N ts" "distinct (map cv (addrsF ts))"
  shows "\<forall>a\<in>set (internF ts). \<forall>n. N a = Some n \<longrightarrow>
           recompF K cv ts m (cv a) = Some (K (map (\<lambda>c. the (recompF K cv ts m (cv c))) (children n)))"
  using assms
proof (induction ts)
  case Nil
  then show ?case by simp
next
  case (Cons u us)
  have du: "distinct (map cv (addrs u))" and dus: "distinct (map cv (addrsF us))"
    and dj: "cv ` set (addrs u) \<inter> cv ` set (addrsF us) = {}"
    using Cons.prems(2) by auto
  have ru: "repr N u" and rus: "reprF N us" using Cons.prems(1) by simp_all
  let ?m = "recompF K cv us m"
  show ?case
  proof (intro ballI allI impI)
    fix a n assume a: "a \<in> set (internF (u # us))" and n: "N a = Some n"
    show "recompF K cv (u # us) m (cv a) =
            Some (K (map (\<lambda>c. the (recompF K cv (u # us) m (cv c))) (children n)))"
    proof (cases "a \<in> set (intern u)")
      case True
      from recomp_eq[OF ru du, of K ?m] True n show ?thesis by simp
    next
      case False
      then have ain: "a \<in> set (internF us)" using a by simp
      then have aa: "a \<in> set (addrsF us)" using internF_subset by blast
      have "cv a \<notin> cv ` set (intern u)" using dj aa intern_subset[of u] by blast
      then have e1: "recomp K cv u ?m (cv a) = ?m (cv a)" by (rule recomp_frame)
      have kin: "set (children n) \<subseteq> set (addrsF us)"
      proof -
        from aa obtain w where w: "w \<in> set us" "a \<in> set (addrs w)" by (auto simp: addrsF_set)
        have "repr N w" using rus w(1) by (simp add: reprF_iff)
        from repr_children_in[OF this w(2) n] w(1) show ?thesis by (auto simp: addrsF_set)
      qed
      have e2: "recomp K cv u ?m (cv c) = ?m (cv c)" if "c \<in> set (children n)" for c
      proof -
        have "cv c \<notin> cv ` set (intern u)" using dj kin that intern_subset[of u] by blast
        then show ?thesis by (rule recomp_frame)
      qed
      from Cons.IH[OF rus dus] ain n
      have "?m (cv a) = Some (K (map (\<lambda>c. the (?m (cv c))) (children n)))" by blast
      then show ?thesis using e1 e2 by (simp cong: map_cong)
    qed
  qed
qed

lemma agree_tree:
  fixes K :: "'a list list \<Rightarrow> 'a list" and m1 m2 :: "addr \<rightharpoonup> 'a list"
  assumes "repr N u"
      and "\<forall>a\<in>set (intern u). \<forall>n. N a = Some n \<longrightarrow> m1 (cv a) = Some (K (map (\<lambda>c. the (m1 (cv c))) (children n)))"
      and "\<forall>a\<in>set (intern u). \<forall>n. N a = Some n \<longrightarrow> m2 (cv a) = Some (K (map (\<lambda>c. the (m2 (cv c))) (children n)))"
      and "\<forall>a\<in>set (addrs u). \<forall>n. N a = Some n \<and> children n = [] \<longrightarrow> m2 (cv a) = m1 (cv a)"
  shows "\<forall>a\<in>set (addrs u). m2 (cv a) = m1 (cv a)"
  using assms
proof (induction u)
  case (Sh b us)
  obtain nb where nb: "N b = Some nb" "children nb = map root_of us"
    using repr_node[OF Sh.prems(1)] by blast
  have sub: "\<forall>a\<in>set (addrs w). m2 (cv a) = m1 (cv a)" if w: "w \<in> set us" for w
  proof (rule Sh.IH[OF w])
    have ne: "us \<noteq> []" using w by auto
    show "repr N w" using Sh.prems(1) w by (simp add: reprF_iff)
    have i: "set (intern w) \<subseteq> set (intern (Sh b us))" using w ne by (auto simp: internF_set)
    have a: "set (addrs w) \<subseteq> set (addrs (Sh b us))" using w by (auto simp: addrsF_set)
    show "\<forall>a\<in>set (intern w). \<forall>n. N a = Some n \<longrightarrow> m1 (cv a) = Some (K (map (\<lambda>c. the (m1 (cv c))) (children n)))"
      using Sh.prems(2) i by blast
    show "\<forall>a\<in>set (intern w). \<forall>n. N a = Some n \<longrightarrow> m2 (cv a) = Some (K (map (\<lambda>c. the (m2 (cv c))) (children n)))"
      using Sh.prems(3) i by blast
    show "\<forall>a\<in>set (addrs w). \<forall>n. N a = Some n \<and> children n = [] \<longrightarrow> m2 (cv a) = m1 (cv a)"
      using Sh.prems(4) a by blast
  qed
  have b: "m2 (cv b) = m1 (cv b)"
  proof (cases "us = []")
    case True
    then show ?thesis using Sh.prems(4) nb by simp
  next
    case False
    have kidsame: "m2 (cv c) = m1 (cv c)" if "c \<in> set (children nb)" for c
    proof -
      from that obtain w where w: "w \<in> set us" "c = root_of w" using nb(2) by auto
      from sub[OF w(1)] root_in_addrs[of w] w(2) show ?thesis by simp
    qed
    have "b \<in> set (intern (Sh b us))" using False by simp
    then have "m1 (cv b) = Some (K (map (\<lambda>c. the (m1 (cv c))) (children nb)))"
      and "m2 (cv b) = Some (K (map (\<lambda>c. the (m2 (cv c))) (children nb)))"
      using Sh.prems(2,3) nb(1) by blast+
    then show ?thesis using kidsame by (simp cong: map_cong)
  qed
  show ?case using b sub by (auto simp: addrsF_set)
qed

lemma recompF_idem:
  fixes K :: "'a list list \<Rightarrow> 'a list"
  assumes "reprF N ts" "distinct (map cv (addrsF ts))"
  shows "recompF K cv ts (recompF K cv ts mem) = recompF K cv ts mem"
proof (rule ext)
  fix x
  let ?m1 = "recompF K cv ts mem"
  let ?m2 = "recompF K cv ts ?m1"
  have inj: "inj_on cv (set (addrsF ts))" using assms(2) by (simp add: distinct_map)
  have leafs: "?m2 (cv a) = ?m1 (cv a)"
    if a: "a \<in> set (addrs w)" "w \<in> set ts" "N a = Some n" "children n = []" for a w n
  proof -
    have "a \<notin> set (internF ts)"
    proof
      assume "a \<in> set (internF ts)"
      then obtain v where v: "v \<in> set ts" "a \<in> set (intern v)" by (auto simp: internF_set)
      have "repr N v" using assms(1) v(1) by (simp add: reprF_iff)
      from intern_children[OF this v(2)] a(3,4) show False by simp
    qed
    moreover have "a \<in> set (addrsF ts)" using a(1,2) by (auto simp: addrsF_set)
    ultimately have "cv a \<notin> cv ` set (internF ts)"
      using inj internF_subset[of ts] by (auto simp: inj_on_def)
    then show ?thesis by (rule recompF_frame)
  qed
  have all: "?m2 (cv a) = ?m1 (cv a)" if "w \<in> set ts" "a \<in> set (addrs w)" for w a
  proof -
    have rw: "repr N w" using assms(1) that(1) by (simp add: reprF_iff)
    have i: "set (intern w) \<subseteq> set (internF ts)" using that(1) by (auto simp: internF_set)
    have "\<forall>a\<in>set (addrs w). ?m2 (cv a) = ?m1 (cv a)"
    proof (rule agree_tree[OF rw, where cv = cv and ?m1.0 = ?m1 and K = K and ?m2.0 = ?m2])
      show "\<forall>a\<in>set (intern w). \<forall>n. N a = Some n \<longrightarrow> ?m1 (cv a) = Some (K (map (\<lambda>c. the (?m1 (cv c))) (children n)))"
        using recompF_eq[OF assms, of K mem] i by blast
      show "\<forall>a\<in>set (intern w). \<forall>n. N a = Some n \<longrightarrow> ?m2 (cv a) = Some (K (map (\<lambda>c. the (?m2 (cv c))) (children n)))"
        using recompF_eq[OF assms, of K ?m1] i by blast
      show "\<forall>a\<in>set (addrs w). \<forall>n. N a = Some n \<and> children n = [] \<longrightarrow> ?m2 (cv a) = ?m1 (cv a)"
        using leafs that(1) by blast
    qed
    then show ?thesis using that(2) by blast
  qed
  show "?m2 x = ?m1 x"
  proof (cases "x \<in> cv ` set (internF ts)")
    case True
    then obtain a where a: "a \<in> set (internF ts)" "x = cv a" by auto
    then obtain w where "w \<in> set ts" "a \<in> set (addrs w)"
      using internF_subset[of ts] by (auto simp: addrsF_set)
    from all[OF this] a(2) show ?thesis by simp
  next
    case False
    then show ?thesis by (rule recompF_frame)
  qed
qed

lemma up_roots_result:
  fixes h :: "('a, 'n) heap"
  assumes "reprF (nodes h) ts"
      and "\<forall>a\<in>set (addrsF ts). 0 \<le> rk_of (nodes h) a \<and> rk_of (nodes h) a < int (length st)"
      and "length stk + length ts < stack_cap"
      and "\<forall>i<length st. st ! i = 0 \<or> int i \<in> rk_of (nodes h) ` LS"
  shows "\<exists>st'. up_roots h (map root_of ts) (stk, st) = Inr (rev (map root_of ts) @ stk, st') \<and>
           length st' = length st \<and>
           (\<forall>i<length st. st' ! i = 0 \<or>
              int i \<in> rk_of (nodes h) ` (LS \<union> {root_of t |t. t \<in> set ts \<and> kids t = []}))"
  using assms
proof (induction ts arbitrary: stk st LS)
  case Nil
  then show ?case by simp
next
  case (Cons t ts)
  let ?N = "nodes h" and ?r = "root_of t"
  from Cons.prems(1) have rt: "repr ?N t" and rts: "reprF ?N ts" by simp_all
  from repr_root[OF rt] obtain n where n: "?N ?r = Some n" "children n = map root_of (kids t)" by blast
  have rk: "rk_of ?N ?r = NodeRank n" using n by (simp add: rk_of_def)
  have "?r \<in> set (addrsF (t # ts))" using root_in_addrs[of t] by simp
  from Cons.prems(2)[rule_format, OF this]
  have rg: "0 \<le> NodeRank n" "NodeRank n < int (length st)"
    unfolding rk by simp_all
  let ?v = "if children n \<noteq> [] then 0 else (1::int)"
  let ?st1 = "st[nat (NodeRank n) := ?v]"
  let ?LS1 = "LS \<union> (if kids t = [] then {?r} else {})"
  have p2: "\<forall>a\<in>set (addrsF ts). 0 \<le> rk_of ?N a \<and> rk_of ?N a < int (length ?st1)"
    using Cons.prems(2) by simp
  have p3: "length (?r # stk) + length ts < stack_cap" using Cons.prems(3) by simp
  have p4: "\<forall>i<length ?st1. ?st1 ! i = 0 \<or> int i \<in> rk_of ?N ` ?LS1"
  proof (intro allI impI)
    fix i assume i: "i < length ?st1"
    show "?st1 ! i = 0 \<or> int i \<in> rk_of ?N ` ?LS1"
    proof (cases "i = nat (NodeRank n)")
      case True
      then have "int i = rk_of ?N ?r" using rg rk by simp
      then show ?thesis using True i n(2) by (auto simp: nth_list_update)
    next
      case False
      then show ?thesis using Cons.prems(4) i by (auto simp: nth_list_update)
    qed
  qed
  from Cons.IH[OF rts p2 p3 p4] obtain st' where
    r: "up_roots h (map root_of ts) (?r # stk, ?st1) = Inr (rev (map root_of ts) @ ?r # stk, st')"
    and l: "length st' = length ?st1"
    and q: "\<forall>i<length ?st1. st' ! i = 0 \<or>
              int i \<in> rk_of ?N ` (?LS1 \<union> {root_of t |t. t \<in> set ts \<and> kids t = []})"
    by blast
  have cap: "\<not> stack_cap \<le> length stk + 1" using Cons.prems(3) by simp
  have run: "up_roots h (map root_of (t # ts)) (stk, st) = Inr (rev (map root_of (t # ts)) @ stk, st')"
    using cap r by (simp add: getNode_Some[OF n(1)] rd_status_ok[OF rg] bind_err_simps)
  have sets: "?LS1 \<union> {root_of t |t. t \<in> set ts \<and> kids t = []} =
              LS \<union> {root_of u |u. u \<in> set (t # ts) \<and> kids u = []}"
    by auto
  show ?case
    using run l q unfolding sets by (intro exI[of _ st']) simp
qed

lemma up_pass:
  fixes h :: "('a, 'n) heap" and K :: "'a list list \<Rightarrow> 'a list"
  assumes "up_wf D stride nN h ts"
  shows "S_mwTreeTransformUp D K stride nN (map root_of ts) h =
           Some (Inr (h\<lparr>coefmem := recompF K (cv_of (nodes h)) ts (coefmem h)\<rparr>))"
proof -
  let ?N = "nodes h" and ?st0 = "replicate (nat nN) (0::int)"
  from assms have D3: "D = 3" and rp: "reprF ?N ts" and ct: "contigF ?N D stride ts"
    and d1: "distinct (addrsF ts)" and d2: "distinct (map (rk_of ?N) (addrsF ts))"
    and rg: "\<forall>a\<in>set (addrsF ts). 0 \<le> rk_of ?N a \<and> rk_of ?N a < nN"
    and d3: "distinct (map (cv_of ?N) (addrsF ts))"
    and df: "\<forall>a\<in>set (addrsF ts). coefmem h (cv_of ?N a) \<noteq> None"
    and cap: "needR ts < stack_cap"
    by (auto simp: up_wf_def list_all_iff)
  have rg0: "\<forall>a\<in>set (addrsF ts). 0 \<le> rk_of ?N a \<and> rk_of ?N a < int (length ?st0)"
    using rg by auto
  have c0: "length ([]::addr list) + length ts < stack_cap"
    using cap needR_length[of ts] by simp
  have z0: "\<forall>i<length ?st0. ?st0 ! i = 0 \<or> int i \<in> rk_of ?N ` {}" by simp
  from up_roots_result[OF rp rg0 c0 z0] obtain st1 where
    u: "up_roots h (map root_of ts) ([], ?st0) = Inr (rev (map root_of ts), st1)"
    and l1: "length st1 = length ?st0"
    and q1: "\<forall>i<length ?st0. st1 ! i = 0 \<or>
              int i \<in> rk_of ?N ` {root_of t |t. t \<in> set ts \<and> kids t = []}"
    by auto
  have nok: "nodes_ok ?N (length st1) (coefmem h) (addrsF ts)"
    using d1 d2 d3 df rg0 l1 by (simp add: nodes_ok_def)
  have zz: "st1 ! nat (rk_of ?N a) = 0" if a: "a \<in> set (internF ts)" for a
  proof -
    have aa: "a \<in> set (addrsF ts)" using a internF_subset by blast
    from rg[rule_format, OF aa]
    have r: "0 \<le> rk_of ?N a" "nat (rk_of ?N a) < length ?st0" by simp_all
    have "rk_of ?N a \<notin> rk_of ?N ` {root_of t |t. t \<in> set ts \<and> kids t = []}"
    proof
      assume "rk_of ?N a \<in> rk_of ?N ` {root_of t |t. t \<in> set ts \<and> kids t = []}"
      then obtain t where t: "t \<in> set ts" "kids t = []" "rk_of ?N a = rk_of ?N (root_of t)" by auto
      have ra: "root_of t \<in> set (addrsF ts)" using t(1) root_in_addrs[of t] by (auto simp: addrsF_set)
      have "a = root_of t" using nodes_ok_inj(1)[OF nok aa ra] t(3) by simp
      moreover have "repr ?N t" using rp t(1) by (simp add: reprF_iff)
      then obtain n where "?N (root_of t) = Some n" "children n = []"
        using repr_root[of ?N t] t(2) by auto
      moreover obtain v where v: "v \<in> set ts" "a \<in> set (intern v)" using a by (auto simp: internF_set)
      moreover have "repr ?N v" using rp v(1) by (simp add: reprF_iff)
      ultimately show False using intern_children[of ?N v a] by auto
    qed
    moreover from q1[rule_format, of "nat (rk_of ?N a)"] r
    have "st1 ! nat (rk_of ?N a) = 0 \<or>
          rk_of ?N a \<in> rk_of ?N ` {root_of t |t. t \<in> set ts \<and> kids t = []}" by simp
    ultimately show ?thesis by blast
  qed
  have pre: "forest_pre D stride h st1 [] ts"
    using D3 rp ct nok zz cap by (auto simp: forest_pre_def)
  have "forest_post D K stride h st1 [] ts"
    by (rule forest_from_trees[OF _ pre]) (rule tree_pass)
  then obtain st2 where
    L: "up_loop D K stride \<lparr>ustack = rev (map root_of ts), ustatus = st1, uheap = h\<rparr> =
        up_loop D K stride \<lparr>ustack = [], ustatus = st2,
          uheap = h\<lparr>coefmem := recompF K (cv_of ?N) ts (coefmem h)\<rparr>\<rparr>"
    by (auto simp: forest_post_def)
  have E: "up_loop D K stride \<lparr>ustack = [], ustatus = st2,
          uheap = h\<lparr>coefmem := recompF K (cv_of ?N) ts (coefmem h)\<rparr>\<rparr> =
        Some (Inr \<lparr>ustack = [], ustatus = st2,
          uheap = h\<lparr>coefmem := recompF K (cv_of ?N) ts (coefmem h)\<rparr>\<rparr>)"
    by (subst up_loop.simps) simp
  show ?thesis
    unfolding S_mwTreeTransformUp_def u by (simp add: L E)
qed

lemma up_wf_result:
  assumes "up_wf D stride nN h ts"
  shows "up_wf D stride nN (h\<lparr>coefmem := recompF K (cv_of (nodes h)) ts (coefmem h)\<rparr>) ts"
proof -
  have "recompF K (cv_of (nodes h)) ts (coefmem h) x \<noteq> None" if "coefmem h x \<noteq> None" for x
    using that by (rule recompF_dom)
  then show ?thesis
    using assms unfolding up_wf_def list_all_iff by auto
qed

lemma scan_children_count:
  "scan_children h st cs acc = Inr (k, stk) \<Longrightarrow> k = fst acc + length cs \<Longrightarrow> list_all (child_ok h st) cs"
proof (induction cs arbitrary: acc)
  case Nil
  then show ?case by simp
next
  case (Cons c cs)
  have mono: "scan_children h st xs acc' = Inr (k', stk') \<Longrightarrow> k' \<le> fst acc' + length xs"
    for xs acc' k' stk'
  proof (induction xs arbitrary: acc')
    case Nil
    then show ?case by auto
  next
    case (Cons x xs)
    then show ?case
      by (fastforce simp: bind_err_Inr split: if_splits)
  qed
  from Cons.prems(1) obtain nc sc where nc: "getNode h c = Inr nc" "rd_status st (NodeRank nc) = Inr sc"
    by (auto simp: bind_err_Inr)
  show ?case
  proof (cases "sc > 0 \<or> children nc = []")
    case True
    then have r: "scan_children h st cs (fst acc + 1, snd acc) = Inr (k, stk)"
      using Cons.prems(1) nc by (simp add: bind_err_simps)
    have "list_all (child_ok h st) cs"
      by (rule Cons.IH[OF r]) (use Cons.prems(2) in simp)
    moreover have "child_ok h st c"
      using nc True by (auto simp: child_ok_def getNode_def rd_status_def split: option.splits if_splits)
    ultimately show ?thesis by simp
  next
    case False
    then have r: "scan_children h st cs (fst acc, c # snd acc) = Inr (k, stk)"
      using Cons.prems(1) nc by (auto simp: bind_err_simps split: if_splits)
    from mono[OF r] Cons.prems(2) show ?thesis by simp
  qed
qed

lemma up_step_analysis_guard:
  assumes "up_step D K stride s = Inr s'" "coefmem (uheap s') \<noteq> coefmem (uheap s)"
  shows "\<exists>fpos rest n. ustack s = fpos # rest \<and> nodes (uheap s) fpos = Some n \<and>
           list_all (child_ok (uheap s) (ustatus s)) (children n)"
proof -
  from assms(1) obtain fpos rest where st: "ustack s = fpos # rest"
    by (cases "ustack s") (auto simp: up_step_def)
  from assms(1) st obtain n sf where n: "getNode (uheap s) fpos = Inr n"
    "rd_status (ustatus s) (NodeRank n) = Inr sf"
    by (auto simp: up_step_def bind_err_Inr)
  have N: "nodes (uheap s) fpos = Some n" using n(1) by (auto simp: getNode_def split: option.splits)
  have br: "children n \<noteq> [] \<and> sf = 0"
    using assms st n by (auto simp: up_step_def bind_err_simps split: if_splits)
  with assms(1) st n obtain k stk where sc: "scan_children (uheap s) (ustatus s) (children n) (0, fpos # rest) = Inr (k, stk)"
    by (auto simp: up_step_def bind_err_simps bind_err_Inr)
  have "k = length (children n)"
    using assms st n br sc by (auto simp: up_step_def bind_err_simps split: if_splits)
  from scan_children_count[OF sc] this have "list_all (child_ok (uheap s) (ustatus s)) (children n)" by simp
  then show ?thesis using st N by blast
qed

lemma nonleaf_intern:
  "repr N t \<Longrightarrow> a \<in> set (addrs t) \<Longrightarrow> N a = Some n \<Longrightarrow> children n \<noteq> [] \<Longrightarrow> a \<in> set (intern t)"
proof (induction t)
  case (Sh b ts)
  show ?case
  proof (cases "a = b")
    case True
    with Sh.prems have "ts \<noteq> []" by (auto split: option.splits)
    then show ?thesis using True by simp
  next
    case False
    with Sh.prems(2) obtain u where u: "u \<in> set ts" "a \<in> set (addrs u)" by (auto simp: addrsF_set)
    have "repr N u" using Sh.prems(1) u(1) by (simp add: reprF_iff)
    from Sh.IH[OF u(1) this u(2) Sh.prems(3,4)] have "a \<in> set (intern u)" .
    then have "a \<in> set (internF ts)" using u(1) by (auto simp: internF_set)
    moreover have "ts \<noteq> []" using u(1) by auto
    ultimately show ?thesis by simp
  qed
qed

lemma nonleaf_internF:
  "reprF N ts \<Longrightarrow> a \<in> set (addrsF ts) \<Longrightarrow> N a = Some n \<Longrightarrow> children n \<noteq> [] \<Longrightarrow> a \<in> set (internF ts)"
  by (auto simp: addrsF_set internF_set reprF_iff intro: nonleaf_intern)

lemma internF_node:
  "reprF N ts \<Longrightarrow> a \<in> set (internF ts) \<Longrightarrow> \<exists>n. N a = Some n \<and> children n \<noteq> []"
  by (auto simp: internF_set reprF_iff intro: intern_children)

lemma contig_node:
  "repr N t \<Longrightarrow> contig N D stride t \<Longrightarrow> a \<in> set (intern t) \<Longrightarrow> N a = Some n \<Longrightarrow>
     length (children n) = 2 ^ D \<and>
     map (cv_of N) (children n) =
       map (\<lambda>ft. cv_of N (hd (children n)) + 8 * (int ft * stride)) [0..<2 ^ D]"
proof (induction t)
  case (Sh b ts)
  from Sh.prems(3) have ne: "ts \<noteq> []" by (auto split: if_splits)
  show ?case
  proof (cases "a = b")
    case True
    with Sh.prems(1,4) have c: "children n = map root_of ts" by (auto split: option.splits)
    have h: "hd (children n) = root_of (hd ts)" using c ne by (simp add: hd_map)
    from Sh.prems(2) ne have l: "length ts = 2 ^ D"
      and m: "map (\<lambda>t. cv_of N (root_of t)) ts =
              map (\<lambda>ft. cv_of N (root_of (hd ts)) + 8 * (int ft * stride)) [0..<2 ^ D]"
      by auto
    have "map (cv_of N) (children n) = map (\<lambda>t. cv_of N (root_of t)) ts"
      unfolding c by simp
    then show ?thesis using l m c h by simp
  next
    case False
    with Sh.prems(3) ne obtain u where u: "u \<in> set ts" "a \<in> set (intern u)"
      by (auto simp: internF_set)
    have "repr N u" "contig N D stride u"
      using Sh.prems(1,2) u(1) by (simp_all add: reprF_iff contigF_iff)
    from Sh.IH[OF u(1) this u(2) Sh.prems(4)] show ?thesis .
  qed
qed

lemma contig_nodeF:
  "reprF N ts \<Longrightarrow> contigF N D stride ts \<Longrightarrow> a \<in> set (internF ts) \<Longrightarrow> N a = Some n \<Longrightarrow>
     length (children n) = 2 ^ D \<and>
     map (cv_of N) (children n) =
       map (\<lambda>ft. cv_of N (hd (children n)) + 8 * (int ft * stride)) [0..<2 ^ D]"
  by (auto simp: internF_set reprF_iff contigF_iff dest: contig_node)

lemma children_in_forest:
  "reprF N ts \<Longrightarrow> a \<in> set (addrsF ts) \<Longrightarrow> N a = Some n \<Longrightarrow> set (children n) \<subseteq> set (addrsF ts)"
  using repr_children_in by (fastforce simp: addrsF_set reprF_iff)

text \<open>
  Claim C7 (bottom-up recompression fixpoint). For every tree the pass is proved for, in
  particular a tree of uniform depth 2 whose sibling blocks lie \<open>stride\<close> apart,
  S_mwTreeTransformUp returns; it leaves the nodes and the blocks of all nodes without
  children unchanged; afterwards every node with children has \<open>2^D\<close> children and its
  block is exactly what S_mwTransformBack produces from the final blocks of its children,
  so that applying S_mwTransformBack to it again changes nothing; running the pass a second
  time on the result returns the same memory; and an iteration of the loop changes a block
  only when every child of the node on top of the stack has a positive status or has no
  children.
\<close>

theorem recompression_fixpoint:
  fixes h :: "('a, 'n) heap" and K :: "'a list list \<Rightarrow> 'a list"
  assumes "up_wf D stride nN h ts"
  shows "(\<exists>h'. S_mwTreeTransformUp D K stride nN (map root_of ts) h = Some (Inr h') \<and>
            nodes h' = nodes h \<and>
            list_all (\<lambda>a. coefmem h' (cv_of (nodes h) a) = coefmem h (cv_of (nodes h) a))
              (filter (\<lambda>a. kids_of (nodes h) a = []) (addrsF ts)) \<and>
            list_all (\<lambda>a. length (kids_of (nodes h) a) = 2 ^ D \<and>
                        coefmem h' (cv_of (nodes h) a) =
                          Some (K (map (\<lambda>c. the (coefmem h' (cv_of (nodes h) c))) (kids_of (nodes h) a))) \<and>
                        S_mwTransformBack D K (cv_of (nodes h) (hd (kids_of (nodes h) a)))
                          (cv_of (nodes h) a) stride (coefmem h') = Inr (coefmem h'))
              (filter (\<lambda>a. kids_of (nodes h) a \<noteq> []) (addrsF ts)) \<and>
            S_mwTreeTransformUp D K stride nN (map root_of ts) h' = Some (Inr h')) \<and>
         (\<forall>s s' :: ('a, 'n) ustate.
            up_step D K stride s = Inr s' \<and> coefmem (uheap s') \<noteq> coefmem (uheap s) \<longrightarrow>
            list_all (child_ok (uheap s) (ustatus s)) (kids_of (nodes (uheap s)) (hd (ustack s))))"
proof (intro conjI allI impI)
  let ?N = "nodes h" and ?cv = "cv_of (nodes h)"
  let ?m = "recompF K ?cv ts (coefmem h)"
  let ?h' = "h\<lparr>coefmem := ?m\<rparr>"
  from assms have D3: "D = 3" and rp: "reprF ?N ts" and ct: "contigF ?N D stride ts"
    and d1: "distinct (addrsF ts)"
    and d3: "distinct (map ?cv (addrsF ts))"
    and df: "\<forall>a\<in>set (addrsF ts). coefmem h (?cv a) \<noteq> None"
    by (auto simp: up_wf_def list_all_iff)
  have inj: "?cv x = ?cv y \<longleftrightarrow> x = y" if "x \<in> set (addrsF ts)" "y \<in> set (addrsF ts)" for x y
    using d3 that by (auto simp: distinct_map inj_on_def)
  have p1: "S_mwTreeTransformUp D K stride nN (map root_of ts) h = Some (Inr ?h')"
    by (rule up_pass[OF assms])
  have p2: "nodes ?h' = ?N" by simp
  have p3: "list_all (\<lambda>a. coefmem ?h' (?cv a) = coefmem h (?cv a))
              (filter (\<lambda>a. kids_of ?N a = []) (addrsF ts))"
    unfolding list_all_iff
  proof
    fix a assume "a \<in> set (filter (\<lambda>a. kids_of ?N a = []) (addrsF ts))"
    then have a: "a \<in> set (addrsF ts)" and k: "kids_of ?N a = []" by auto
    have "?cv a \<notin> ?cv ` set (internF ts)"
    proof
      assume "?cv a \<in> ?cv ` set (internF ts)"
      then obtain b where b: "b \<in> set (internF ts)" "?cv a = ?cv b" by auto
      have "b \<in> set (addrsF ts)" using b(1) internF_subset by blast
      then have "a = b" using inj[of a b] a b(2) by simp
      with internF_node[OF rp b(1)] k show False by (auto simp: kids_of_def)
    qed
    then show "coefmem ?h' (?cv a) = coefmem h (?cv a)" by (simp add: recompF_frame)
  qed
  have p4: "list_all (\<lambda>a. length (kids_of ?N a) = 2 ^ D \<and>
                        coefmem ?h' (?cv a) =
                          Some (K (map (\<lambda>c. the (coefmem ?h' (?cv c))) (kids_of ?N a))) \<and>
                        S_mwTransformBack D K (?cv (hd (kids_of ?N a))) (?cv a) stride (coefmem ?h') =
                          Inr (coefmem ?h'))
              (filter (\<lambda>a. kids_of ?N a \<noteq> []) (addrsF ts))"
    unfolding list_all_iff
  proof
    fix a assume "a \<in> set (filter (\<lambda>a. kids_of ?N a \<noteq> []) (addrsF ts))"
    then have a: "a \<in> set (addrsF ts)" and k: "kids_of ?N a \<noteq> []" by auto
    from k obtain n where n: "?N a = Some n" "children n \<noteq> []"
      by (auto simp: kids_of_def split: option.splits)
    have kn: "kids_of ?N a = children n" using n by (simp add: kids_of_def)
    have ai: "a \<in> set (internF ts)" by (rule nonleaf_internF[OF rp a n])
    from contig_nodeF[OF rp ct ai n(1)]
    have len: "length (children n) = 2 ^ D"
      and cg: "map ?cv (children n) =
               map (\<lambda>ft. ?cv (hd (children n)) + 8 * (int ft * stride)) [0..<2 ^ D]"
      by simp_all
    from recompF_eq[OF rp d3, of K "coefmem h"] ai n(1)
    have eq: "?m (?cv a) = Some (K (map (\<lambda>c. the (?m (?cv c))) (children n)))" by blast
    have sub: "set (children n) \<subseteq> set (addrsF ts)" by (rule children_in_forest[OF rp a n(1)])
    have ex: "\<forall>p\<in>set (map ?cv (children n)). ?m p \<noteq> None"
      using sub df recompF_dom[of "coefmem h" _ K ?cv ts] by auto
    have rb: "read_blocks ?m (map (\<lambda>ft. ?cv (hd (children n)) + 8 * (int ft * stride)) [0..<2 ^ D]) =
              Inr (map (\<lambda>c. the (?m (?cv c))) (children n))"
      unfolding cg[symmetric] using read_blocks_ok[OF ex] by (simp add: comp_def)
    have out: "?m (?cv a) \<noteq> None" using eq by simp
    have "S_mwTransformBack D K (?cv (hd (children n))) (?cv a) stride ?m =
            Inr (?m(?cv a \<mapsto> K (map (\<lambda>c. the (?m (?cv c))) (children n))))"
      unfolding S_mwTransformBack_def rb using out D3 by (simp add: bind_err_simps)
    also have "?m(?cv a \<mapsto> K (map (\<lambda>c. the (?m (?cv c))) (children n))) = ?m"
      using eq by (simp add: map_upd_triv)
    finally show "length (kids_of ?N a) = 2 ^ D \<and>
                        coefmem ?h' (?cv a) =
                          Some (K (map (\<lambda>c. the (coefmem ?h' (?cv c))) (kids_of ?N a))) \<and>
                        S_mwTransformBack D K (?cv (hd (kids_of ?N a))) (?cv a) stride (coefmem ?h') =
                          Inr (coefmem ?h')"
      unfolding kn using len eq by simp
  qed
  have wf': "up_wf D stride nN ?h' ts" by (rule up_wf_result[OF assms])
  have "S_mwTreeTransformUp D K stride nN (map root_of ts) ?h' =
          Some (Inr (?h'\<lparr>coefmem := recompF K (cv_of (nodes ?h')) ts (coefmem ?h')\<rparr>))"
    by (rule up_pass[OF wf'])
  also have "?h'\<lparr>coefmem := recompF K (cv_of (nodes ?h')) ts (coefmem ?h')\<rparr> = ?h'"
    by (simp add: recompF_idem[OF rp d3])
  finally have p5: "S_mwTreeTransformUp D K stride nN (map root_of ts) ?h' = Some (Inr ?h')" .
  show "\<exists>h'. S_mwTreeTransformUp D K stride nN (map root_of ts) h = Some (Inr h') \<and>
            nodes h' = nodes h \<and>
            list_all (\<lambda>a. coefmem h' (cv_of (nodes h) a) = coefmem h (cv_of (nodes h) a))
              (filter (\<lambda>a. kids_of (nodes h) a = []) (addrsF ts)) \<and>
            list_all (\<lambda>a. length (kids_of (nodes h) a) = 2 ^ D \<and>
                        coefmem h' (cv_of (nodes h) a) =
                          Some (K (map (\<lambda>c. the (coefmem h' (cv_of (nodes h) c))) (kids_of (nodes h) a))) \<and>
                        S_mwTransformBack D K (cv_of (nodes h) (hd (kids_of (nodes h) a)))
                          (cv_of (nodes h) a) stride (coefmem h') = Inr (coefmem h'))
              (filter (\<lambda>a. kids_of (nodes h) a \<noteq> []) (addrsF ts)) \<and>
            S_mwTreeTransformUp D K stride nN (map root_of ts) h' = Some (Inr h')"
    using p1 p2 p3 p4 p5 by (intro exI[of _ ?h'] conjI)
next
  fix s s' :: "('a, 'n) ustate"
  assume "up_step D K stride s = Inr s' \<and> coefmem (uheap s') \<noteq> coefmem (uheap s)"
  then have "\<exists>fpos rest n. ustack s = fpos # rest \<and> nodes (uheap s) fpos = Some n \<and>
           list_all (child_ok (uheap s) (ustatus s)) (children n)"
    using up_step_analysis_guard[of D K stride s s'] by blast
  then show "list_all (child_ok (uheap s) (ustatus s)) (kids_of (nodes (uheap s)) (hd (ustack s)))"
    by (auto simp: kids_of_def)
qed

lemma ex_up_wf: "up_wf 3 8 73 ex_up_heap [ex_up_shape]"
  by code_simp

lemma ex_up_uniform: "uniformF [ex_up_shape] 2"
  by code_simp

lemma ex_up_n2000:
  "ex_up_nodes 2000 =
     Some (up_node 1 [10000, 10100, 10200, 10300, 10400, 10500, 10600, 10700] 200000 1000)"
  by (simp add: ex_up_nodes_def upt_rec)

lemma ex_up_leaves:
  "ex_up_nodes 10000 = Some (up_node 9 [] 300000 2000)"
  "ex_up_nodes 10100 = Some (up_node 10 [] 300064 2000)"
  "ex_up_nodes 10200 = Some (up_node 11 [] 300128 2000)"
  "ex_up_nodes 10300 = Some (up_node 12 [] 300192 2000)"
  "ex_up_nodes 10400 = Some (up_node 13 [] 300256 2000)"
  "ex_up_nodes 10500 = Some (up_node 14 [] 300320 2000)"
  "ex_up_nodes 10600 = Some (up_node 15 [] 300384 2000)"
  "ex_up_nodes 10700 = Some (up_node 16 [] 300448 2000)"
  by (simp_all add: ex_up_nodes_def)

lemma ex_up_step: "up_step 3 concat 8 ex_up_state = Inr ex_up_state1"
proof -
  let ?n = "up_node 1 [10000, 10100, 10200, 10300, 10400, 10500, 10600, 10700] 200000 1000"
  have 1: "nodes ex_up_heap 2000 = Some ?n" by (simp add: ex_up_heap_def ex_up_n2000)
  have 2: "0 \<le> NodeRank ?n" "NodeRank ?n < int (length (replicate 73 (0::int)))"
    "children ?n \<noteq> []" "replicate 73 (0::int) ! nat (NodeRank ?n) = 0"
    by (simp_all add: up_node_def)
  have 3: "\<forall>c\<in>set (children ?n). \<exists>nc. nodes ex_up_heap c = Some nc \<and> 0 \<le> NodeRank nc \<and>
             NodeRank nc < int (length (replicate 73 (0::int)))"
    by (simp add: up_node_def ex_up_heap_def ex_up_leaves)
  have 4: "Suc (length [1000::addr]) < stack_cap" by (simp add: stack_cap_def)
  have 5: "\<forall>c\<in>set (children ?n). child_ok ex_up_heap (replicate 73 0) c"
    by (simp add: up_node_def ex_up_heap_def ex_up_leaves child_ok_def)
  have 6: "nodes ex_up_heap (hd (children ?n)) = Some (up_node 9 [] 300000 2000)"
    by (simp add: up_node_def ex_up_heap_def ex_up_leaves)
  have 7: "coefmem ex_up_heap (coefvec ?n) \<noteq> None"
    by (simp add: up_node_def ex_up_heap_def ex_up_mem_def)
  have 8: "map (\<lambda>ft. coefvec (up_node 9 [] 300000 2000) + 8 * (int ft * 8)) [0..<2 ^ 3] =
           [300000, 300064, 300128, 300192, 300256, 300320, 300384, 300448]"
    by (simp add: up_node_def upt_rec)
  have 9: "\<forall>p\<in>set [300000, 300064, 300128, 300192, 300256, 300320, 300384, 300448].
             coefmem ex_up_heap p \<noteq> None"
    by (simp add: ex_up_heap_def ex_up_mem_def)
  have "up_step 3 concat 8 \<lparr>ustack = 2000 # [1000], ustatus = replicate 73 0, uheap = ex_up_heap\<rparr> =
          Inr \<lparr>ustack = 2000 # [1000], ustatus = (replicate 73 0)[nat (NodeRank ?n) := 1],
               uheap = ex_up_heap\<lparr>coefmem := (coefmem ex_up_heap)(coefvec ?n \<mapsto>
                 concat (map (\<lambda>p. the (coefmem ex_up_heap p))
                   [300000, 300064, 300128, 300192, 300256, 300320, 300384, 300448]))\<rparr>\<rparr>"
    by (rule step_compress[OF 1 2 3 4 5 6 refl 7 8 9])
  also have "\<dots> = Inr ex_up_state1"
    by (simp add: ex_up_state1_def up_node_def ex_up_heap_def ex_up_mem_def)
  finally show ?thesis by (simp add: ex_up_state_def)
qed

lemma ex_up_changed: "coefmem (uheap ex_up_state1) \<noteq> coefmem (uheap ex_up_state)"
proof
  assume "coefmem (uheap ex_up_state1) = coefmem (uheap ex_up_state)"
  then have "coefmem (uheap ex_up_state1) 200000 = coefmem (uheap ex_up_state) 200000" by simp
  then show False
    by (simp add: ex_up_state1_def ex_up_state_def ex_up_heap_def ex_up_mem_def)
qed

theorem recompression_fixpoint_witness:
  "up_wf 3 8 73 ex_up_heap [ex_up_shape] \<and> uniformF [ex_up_shape] 2 \<and>
   (\<exists>h'. S_mwTreeTransformUp 3 concat 8 73 (map root_of [ex_up_shape]) ex_up_heap = Some (Inr h') \<and>
      nodes h' = nodes ex_up_heap \<and>
      list_all (\<lambda>a. coefmem h' (cv_of (nodes ex_up_heap) a) = coefmem ex_up_heap (cv_of (nodes ex_up_heap) a))
        (filter (\<lambda>a. kids_of (nodes ex_up_heap) a = []) (addrsF [ex_up_shape])) \<and>
      list_all (\<lambda>a. length (kids_of (nodes ex_up_heap) a) = 2 ^ 3 \<and>
                  coefmem h' (cv_of (nodes ex_up_heap) a) =
                    Some (concat (map (\<lambda>c. the (coefmem h' (cv_of (nodes ex_up_heap) c)))
                                    (kids_of (nodes ex_up_heap) a))) \<and>
                  S_mwTransformBack 3 concat (cv_of (nodes ex_up_heap) (hd (kids_of (nodes ex_up_heap) a)))
                    (cv_of (nodes ex_up_heap) a) 8 (coefmem h') = Inr (coefmem h'))
        (filter (\<lambda>a. kids_of (nodes ex_up_heap) a \<noteq> []) (addrsF [ex_up_shape])) \<and>
      S_mwTreeTransformUp 3 concat 8 73 (map root_of [ex_up_shape]) h' = Some (Inr h')) \<and>
   up_step 3 concat 8 ex_up_state = Inr ex_up_state1 \<and>
   coefmem (uheap ex_up_state1) \<noteq> coefmem (uheap ex_up_state) \<and>
   list_all (child_ok (uheap ex_up_state) (ustatus ex_up_state))
     (kids_of (nodes (uheap ex_up_state)) (hd (ustack ex_up_state)))"
  using recompression_fixpoint[OF ex_up_wf, of concat] ex_up_wf ex_up_uniform ex_up_step ex_up_changed
  by blast

section \<open>Properties of RewritePointers\<close>










lemma heap_nodes_twice: "h\<lparr>nodes := A\<rparr>\<lparr>nodes := B\<rparr> = h\<lparr>nodes := B\<rparr>"
  by simp















end
